theory Spec2Isabelle
  imports Complex_Main "HOL-Library.Word" "HOL-Library.Sublist" "HOL-Library.Log_Nat"
begin

section \<open>Arithmetic of the target: \<open>int\<close>, \<open>float\<close> and \<open>double\<close>\<close>

text \<open>
  \<open>CalcScaleToFitDisplay\<close> computes in C++ \<open>int\<close> (32 bits, overflow undefined),
  \<open>float\<close> (IEEE 754 binary32) and, through \<open>floor\<close>, \<open>double\<close> (binary64), all
  rounding to nearest, ties to even. A floating-point datum is modelled by the rational it
  denotes, or one of the special values; \<open>Finite 0\<close> is the positive zero.
\<close>

datatype float = Finite rat | MinusZero | PlusInf | MinusInf | NaN

datatype fp_format = Binary32 | Binary64

fun prec :: "fp_format \<Rightarrow> nat" where
  "prec Binary32 = 24"
| "prec Binary64 = 53"

fun emin :: "fp_format \<Rightarrow> int" where
  "emin Binary32 = - 126"
| "emin Binary64 = - 1022"

fun emax :: "fp_format \<Rightarrow> int" where
  "emax Binary32 = 127"
| "emax Binary64 = 1023"

definition pow2 :: "int \<Rightarrow> rat" where
  "pow2 e = (if 0 \<le> e then 2 ^ nat e else 1 / 2 ^ nat (- e))"

text \<open>For \<open>x > 0\<close>, the exponent \<open>e\<close> with \<open>2\<^sup>e \<le> x < 2\<^sup>e\<^sup>+\<^sup>1\<close>.\<close>

definition ilog2 :: "rat \<Rightarrow> int" where
  "ilog2 x =
     (let d = bitlen (fst (quotient_of x)) - bitlen (snd (quotient_of x))
      in if pow2 d \<le> x then d else d - 1)"

definition round_half_even :: "rat \<Rightarrow> int" where
  "round_half_even x =
     (let n = \<lfloor>x\<rfloor>; r = x - of_int n
      in if r < 1 / 2 then n else if 1 / 2 < r then n + 1 else if even n then n else n + 1)"

text \<open>
  A magnitude \<open>x \<ge> 0\<close> rounded to the nearest multiple of the unit in the last place of
  its binade (of the smallest binade for a subnormal), before the overflow check.
\<close>

definition ulp_of :: "fp_format \<Rightarrow> rat \<Rightarrow> rat" where
  "ulp_of f x = pow2 (max (ilog2 x) (emin f) - int (prec f) + 1)"

definition round_mag :: "fp_format \<Rightarrow> rat \<Rightarrow> rat" where
  "round_mag f x = of_int (round_half_even (x / ulp_of f x)) * ulp_of f x"

text \<open>
  The datum for sign bit \<open>neg\<close> and exact magnitude \<open>m \<ge> 0\<close>: an infinity when the
  rounded magnitude has an exponent above \<open>emax\<close>, that is when it reaches
  \<open>2\<^sup>e\<^sup>m\<^sup>a\<^sup>x\<^sup>+\<^sup>1\<close>.
\<close>

definition fp_round :: "fp_format \<Rightarrow> bool \<Rightarrow> rat \<Rightarrow> float" where
  "fp_round f neg m =
     (let r = round_mag f m
      in if r = 0 then (if neg then MinusZero else Finite 0)
         else if emax f < ilog2 r then (if neg then MinusInf else PlusInf)
         else Finite (if neg then - r else r))"

fun sign_bit :: "float \<Rightarrow> bool" where
  "sign_bit (Finite r) = (r < 0)"
| "sign_bit MinusZero = True"
| "sign_bit PlusInf = False"
| "sign_bit MinusInf = True"
| "sign_bit NaN = False"

fun mag :: "float \<Rightarrow> rat" where
  "mag (Finite r) = \<bar>r\<bar>"
| "mag _ = 0"

fun is_nan :: "float \<Rightarrow> bool" where
  "is_nan NaN = True"
| "is_nan _ = False"

fun is_inf :: "float \<Rightarrow> bool" where
  "is_inf PlusInf = True"
| "is_inf MinusInf = True"
| "is_inf _ = False"

fun is_zero :: "float \<Rightarrow> bool" where
  "is_zero (Finite r) = (r = 0)"
| "is_zero MinusZero = True"
| "is_zero _ = False"

definition fp_mul :: "fp_format \<Rightarrow> float \<Rightarrow> float \<Rightarrow> float" where
  "fp_mul f a b =
     (if is_nan a \<or> is_nan b then NaN
      else if (is_inf a \<and> is_zero b) \<or> (is_zero a \<and> is_inf b) then NaN
      else if is_inf a \<or> is_inf b
        then (if sign_bit a \<noteq> sign_bit b then MinusInf else PlusInf)
      else fp_round f (sign_bit a \<noteq> sign_bit b) (mag a * mag b))"

definition fp_div :: "fp_format \<Rightarrow> float \<Rightarrow> float \<Rightarrow> float" where
  "fp_div f a b =
     (if is_nan a \<or> is_nan b then NaN
      else if (is_inf a \<and> is_inf b) \<or> (is_zero a \<and> is_zero b) then NaN
      else if is_inf a \<or> is_zero b
        then (if sign_bit a \<noteq> sign_bit b then MinusInf else PlusInf)
      else if is_inf b
        then (if sign_bit a \<noteq> sign_bit b then MinusZero else Finite 0)
      else fp_round f (sign_bit a \<noteq> sign_bit b) (mag a / mag b))"

text \<open>\<open>a < b\<close> on floating-point data; any comparison with a NaN is false.\<close>

fun fp_num :: "float \<Rightarrow> rat" where
  "fp_num (Finite r) = r"
| "fp_num _ = 0"

fun fp_less :: "float \<Rightarrow> float \<Rightarrow> bool" where
  "fp_less NaN b = False"
| "fp_less a NaN = False"
| "fp_less PlusInf b = False"
| "fp_less a MinusInf = False"
| "fp_less MinusInf b = True"
| "fp_less a PlusInf = True"
| "fp_less a b = (fp_num a < fp_num b)"

text \<open>Conversions from \<open>int\<close>: to \<open>float\<close> (rounds above \<open>2\<^sup>2\<^sup>4\<close>) and to \<open>double\<close>.\<close>

definition int_to_float :: "int \<Rightarrow> float" where
  "int_to_float i = fp_round Binary32 (i < 0) (of_int \<bar>i\<bar>)"

definition int_to_double :: "int \<Rightarrow> float" where
  "int_to_double i = fp_round Binary64 (i < 0) (of_int \<bar>i\<bar>)"

text \<open>\<open>roundf\<close>: to the nearest integer, halfway cases away from zero.\<close>

definition round_half_away :: "rat \<Rightarrow> int" where
  "round_half_away r = (if 0 \<le> r then \<lfloor>r + 1 / 2\<rfloor> else - \<lfloor>- r + 1 / 2\<rfloor>)"

fun roundf :: "float \<Rightarrow> float" where
  "roundf (Finite r) =
     (if round_half_away r = 0 \<and> r < 0 then MinusZero else Finite (of_int (round_half_away r)))"
| "roundf a = a"

text \<open>\<open>floor\<close>, which leaves zeros, infinities and NaN as they are.\<close>

fun fp_floor :: "float \<Rightarrow> float" where
  "fp_floor (Finite r) = Finite (of_int \<lfloor>r\<rfloor>)"
| "fp_floor a = a"

text \<open>
  The errors of the model are the undefined behaviours of the C++: a signed \<open>int\<close>
  operation that overflows, and a conversion to \<open>int\<close> of a NaN, an infinity or a value
  whose truncation is not an \<open>int\<close>.
\<close>

datatype fit_error = SignedOverflow | FloatToIntOutOfRange

definition INT_MIN :: int where
  "INT_MIN = - (2 ^ 31)"

definition INT_MAX :: int where
  "INT_MAX = 2 ^ 31 - 1"

definition trunc_toward_zero :: "rat \<Rightarrow> int" where
  "trunc_toward_zero r = (if 0 \<le> r then \<lfloor>r\<rfloor> else - \<lfloor>- r\<rfloor>)"

fun float_to_int :: "float \<Rightarrow> fit_error + int" where
  "float_to_int (Finite r) =
     (if INT_MIN \<le> trunc_toward_zero r \<and> trunc_toward_zero r \<le> INT_MAX then Inr (trunc_toward_zero r)
      else Inl FloatToIntOutOfRange)"
| "float_to_int MinusZero = Inr 0"
| "float_to_int a = Inl FloatToIntOutOfRange"

definition int_mul :: "int \<Rightarrow> int \<Rightarrow> fit_error + int" where
  "int_mul a b =
     (if INT_MIN \<le> a * b \<and> a * b \<le> INT_MAX then Inr (a * b) else Inl SignedOverflow)"

text \<open>C++ integer division truncates towards zero; the divisors here are 1 and 2.\<close>

definition int_div :: "int \<Rightarrow> int \<Rightarrow> int" where
  "int_div a b = sgn a * sgn b * (\<bar>a\<bar> div \<bar>b\<bar>)"

text \<open>
  The compound assignments \<open>i *= f\<close> and \<open>i /= f\<close> on an \<open>int i\<close> and a \<open>float f\<close>:
  \<open>i\<close> is converted to \<open>float\<close>, the operation is done in \<open>float\<close>, and the result is
  converted back.
\<close>

definition int_mul_assign_float :: "int \<Rightarrow> float \<Rightarrow> fit_error + int" where
  "int_mul_assign_float i f = float_to_int (fp_mul Binary32 (int_to_float i) f)"

definition int_div_assign_float :: "int \<Rightarrow> float \<Rightarrow> fit_error + int" where
  "int_div_assign_float i f = float_to_int (fp_div Binary32 (int_to_float i) f)"

section \<open>GeometryFitter: \<open>ImageSource::CalcScaleToFitDisplay\<close>\<close>

text \<open>The fields of \<open>DisplayOptions\<close> that the function reads.\<close>

record DisplayOptions =
  width :: int
  height :: int
  fill_width :: bool
  fill_height :: bool
  upscale :: bool
  upscale_integer :: bool
  width_stretch :: float
  cell_x_px :: int
  cell_y_px :: int

text \<open>The two output parameters and the returned flag.\<close>

record FitResult =
  target_width :: int
  target_height :: int
  needs_scaling :: bool

text \<open>Lines 51 to 56: the working copy of the options.\<close>

definition rotate_options :: "DisplayOptions \<Rightarrow> bool \<Rightarrow> DisplayOptions" where
  "rotate_options orig_options fit_in_rotated =
     (if fit_in_rotated
      then orig_options
             \<lparr> width := height orig_options,
               height := width orig_options,
               fill_width := fill_height orig_options,
               fill_height := fill_width orig_options,
               width_stretch := fp_div Binary32 (Finite 1) (width_stretch orig_options) \<rparr>
      else orig_options)"

text \<open>Lines 58 to 63: the stretch is clamped between \<open>1 / 5.0f\<close> and \<open>5.0f\<close>.\<close>

definition kMaxAcceptFactor :: float where
  "kMaxAcceptFactor = Finite 5"

definition clamp_width_stretch :: "float \<Rightarrow> float" where
  "clamp_width_stretch ws =
     (let ws1 = (if fp_less kMaxAcceptFactor ws then kMaxAcceptFactor else ws)
      in if fp_less ws1 (fp_div Binary32 (Finite 1) kMaxAcceptFactor)
         then fp_div Binary32 (Finite 1) kMaxAcceptFactor else ws1)"

text \<open>Lines 65 to 70: the box shrinks in width, or in height.\<close>

definition stretch_box :: "DisplayOptions \<Rightarrow> float \<Rightarrow> fit_error + DisplayOptions" where
  "stretch_box options ws =
     (if fp_less (Finite 1) ws
      then (case int_div_assign_float (width options) ws of
              Inl e \<Rightarrow> Inl e
            | Inr w \<Rightarrow> Inr (options \<lparr> width := w \<rparr>))
      else (case int_mul_assign_float (height options) ws of
              Inl e \<Rightarrow> Inl e
            | Inr h \<Rightarrow> Inr (options \<lparr> height := h \<rparr>)))"

text \<open>Lines 71 and 72.\<close>

definition width_fraction :: "DisplayOptions \<Rightarrow> int \<Rightarrow> float" where
  "width_fraction options img_width =
     fp_div Binary32 (int_to_float (width options)) (int_to_float img_width)"

definition height_fraction :: "DisplayOptions \<Rightarrow> int \<Rightarrow> float" where
  "height_fraction options img_height =
     fp_div Binary32 (int_to_float (height options)) (int_to_float img_height)"

text \<open>Lines 75 and 76: the condition of the early return.\<close>

definition no_scale_needed :: "DisplayOptions \<Rightarrow> float \<Rightarrow> float \<Rightarrow> bool" where
  "no_scale_needed options w_fraction h_fraction \<longleftrightarrow>
     \<not> upscale options \<and> (fill_height options \<or> fp_less (Finite 1) w_fraction)
       \<and> (fill_width options \<or> fp_less (Finite 1) h_fraction)"

text \<open>Lines 77 to 85: the early return.\<close>

definition return_unscaled :: "DisplayOptions \<Rightarrow> int \<Rightarrow> int \<Rightarrow> fit_error + FitResult" where
  "return_unscaled options img_width img_height =
     (if cell_x_px options = 2
      then (case int_mul img_width 2 of
              Inl e \<Rightarrow> Inl e
            | Inr w \<Rightarrow> Inr \<lparr> target_width = w, target_height = img_height,
                             needs_scaling = True \<rparr>)
      else Inr \<lparr> target_width = img_width, target_height = img_height,
                 needs_scaling = False \<rparr>)"

text \<open>\<open>(int)roundf(fraction * img_dimension)\<close>.\<close>

definition scaled :: "float \<Rightarrow> int \<Rightarrow> fit_error + int" where
  "scaled fraction img_dim =
     float_to_int (roundf (fp_mul Binary32 fraction (int_to_float img_dim)))"

text \<open>Lines 88 to 118: the target by fill policy, as a pair (width, height).\<close>

definition scale_by_policy ::
  "DisplayOptions \<Rightarrow> float \<Rightarrow> float \<Rightarrow> int \<Rightarrow> int \<Rightarrow> fit_error + int \<times> int" where
  "scale_by_policy options w_fraction h_fraction img_width img_height =
     (if fill_width options \<and> fill_height options
      then (let larger_fraction = (if fp_less h_fraction w_fraction then w_fraction else h_fraction)
            in case scaled larger_fraction img_width of
                 Inl e \<Rightarrow> Inl e
               | Inr tw \<Rightarrow>
                   (case scaled larger_fraction img_height of
                      Inl e \<Rightarrow> Inl e
                    | Inr th \<Rightarrow> Inr (tw, th)))
      else if fill_height options
      then (case scaled h_fraction img_width of
              Inl e \<Rightarrow> Inl e
            | Inr tw \<Rightarrow> Inr (tw, height options))
      else if fill_width options
      then (case scaled w_fraction img_height of
              Inl e \<Rightarrow> Inl e
            | Inr th \<Rightarrow> Inr (width options, th))
      else (let smaller_fraction = (if fp_less w_fraction h_fraction then w_fraction else h_fraction)
            in case scaled smaller_fraction img_width of
                 Inl e \<Rightarrow> Inl e
               | Inr tw \<Rightarrow>
                   (case scaled smaller_fraction img_height of
                      Inl e \<Rightarrow> Inl e
                    | Inr th \<Rightarrow> Inr (tw, th))))"

text \<open>Lines 120 to 125: the stretch goes back into the target.\<close>

definition restretch :: "float \<Rightarrow> int \<times> int \<Rightarrow> fit_error + int \<times> int" where
  "restretch ws t =
     (if fp_less (Finite 1) ws
      then (case int_mul_assign_float (fst t) ws of
              Inl e \<Rightarrow> Inl e
            | Inr tw \<Rightarrow> Inr (tw, snd t))
      else (case int_div_assign_float (snd t) ws of
              Inl e \<Rightarrow> Inl e
            | Inr th \<Rightarrow> Inr (fst t, th)))"

text \<open>Lines 127 to 133: down to whole character cells, in the block modes only.\<close>

definition quantize_to_cells :: "DisplayOptions \<Rightarrow> int \<times> int \<Rightarrow> int \<times> int" where
  "quantize_to_cells options t =
     (if cell_x_px options > 0 \<and> cell_x_px options \<le> 2
         \<and> cell_y_px options > 0 \<and> cell_y_px options \<le> 2
      then (int_div (fst t) (cell_x_px options) * cell_x_px options,
            int_div (snd t) (cell_y_px options) * cell_y_px options)
      else t)"

text \<open>Lines 135 to 137.\<close>

definition at_least_one :: "int \<times> int \<Rightarrow> int \<times> int" where
  "at_least_one t = (if fst t \<le> 0 then 1 else fst t, if snd t \<le> 0 then 1 else snd t)"

text \<open>
  Lines 139 to 150. \<open>aspect_correct\<close>, \<open>wf\<close> and \<open>hf\<close> (here \<open>w_f\<close>, \<open>h_f\<close>) are \<open>float\<close>; \<open>floor\<close> is the
  \<open>double\<close> function of the C library, so the two products are taken in \<open>double\<close>
  before they are converted to \<open>int\<close>.
\<close>

definition aspect_correct :: "DisplayOptions \<Rightarrow> float" where
  "aspect_correct options = (if cell_x_px options = 2 then Finite 2 else Finite 1)"

definition smaller_factor :: "DisplayOptions \<Rightarrow> int \<Rightarrow> int \<Rightarrow> int \<times> int \<Rightarrow> float" where
  "smaller_factor options img_width img_height t =
     (let w_f = fp_div Binary32
                 (fp_div Binary32 (fp_mul Binary32 (Finite 1) (int_to_float (fst t)))
                    (aspect_correct options))
                 (int_to_float img_width);
          h_f = fp_div Binary32 (fp_mul Binary32 (Finite 1) (int_to_float (snd t)))
                 (int_to_float img_height)
      in if fp_less w_f h_f then w_f else h_f)"

definition integer_upscale ::
  "DisplayOptions \<Rightarrow> int \<Rightarrow> int \<Rightarrow> int \<times> int \<Rightarrow> fit_error + int \<times> int" where
  "integer_upscale options img_width img_height t =
     (if upscale_integer options \<and> fst t > img_width \<and> snd t > img_height
      then (let sf = smaller_factor options img_width img_height t
            in if fp_less (Finite 1) sf
               then (case float_to_int
                            (fp_mul Binary64
                               (fp_mul Binary64 (aspect_correct options) (fp_floor sf))
                               (int_to_double img_width)) of
                       Inl e \<Rightarrow> Inl e
                     | Inr tw \<Rightarrow>
                         (case float_to_int
                                 (fp_mul Binary64 (fp_floor sf) (int_to_double img_height)) of
                            Inl e \<Rightarrow> Inl e
                          | Inr th \<Rightarrow> Inr (tw, th)))
               else Inr t)
      else Inr t)"

text \<open>Line 152.\<close>

definition fit_result :: "int \<Rightarrow> int \<Rightarrow> int \<times> int \<Rightarrow> FitResult" where
  "fit_result img_width img_height t =
     \<lparr> target_width = fst t, target_height = snd t,
       needs_scaling = (fst t \<noteq> img_width \<or> snd t \<noteq> img_height) \<rparr>"

text \<open>Lines 88 to 152: what the function does when it does not return early.\<close>

definition scale_to_fit ::
  "DisplayOptions \<Rightarrow> float \<Rightarrow> int \<Rightarrow> int \<Rightarrow> fit_error + FitResult" where
  "scale_to_fit options ws img_width img_height =
     (case scale_by_policy options (width_fraction options img_width)
             (height_fraction options img_height) img_width img_height of
        Inl e \<Rightarrow> Inl e
      | Inr t0 \<Rightarrow>
          (case restretch ws t0 of
             Inl e \<Rightarrow> Inl e
           | Inr t1 \<Rightarrow>
               (case integer_upscale options img_width img_height
                       (at_least_one (quantize_to_cells options t1)) of
                  Inl e \<Rightarrow> Inl e
                | Inr t2 \<Rightarrow> Inr (fit_result img_width img_height t2))))"

definition CalcScaleToFitDisplay ::
  "int \<Rightarrow> int \<Rightarrow> DisplayOptions \<Rightarrow> bool \<Rightarrow> fit_error + FitResult" where
  "CalcScaleToFitDisplay img_width img_height orig_options fit_in_rotated =
     (let ws = clamp_width_stretch (width_stretch (rotate_options orig_options fit_in_rotated))
      in case stretch_box (rotate_options orig_options fit_in_rotated) ws of
           Inl e \<Rightarrow> Inl e
         | Inr options \<Rightarrow>
             if no_scale_needed options (width_fraction options img_width)
                  (height_fraction options img_height)
             then return_unscaled options img_width img_height
             else scale_to_fit options ws img_width img_height)"

text \<open>
  The integer upscaling as the specification words it: the factor is floored first, and
  the target is recomputed if the floored factor is still greater than 1.
\<close>

definition integer_upscale_spec ::
  "DisplayOptions \<Rightarrow> int \<Rightarrow> int \<Rightarrow> int \<times> int \<Rightarrow> fit_error + int \<times> int" where
  "integer_upscale_spec options img_width img_height t =
     (if upscale_integer options \<and> fst t > img_width \<and> snd t > img_height
      then (let sf = smaller_factor options img_width img_height t
            in if fp_less (Finite 1) (fp_floor sf)
               then (case float_to_int
                            (fp_mul Binary64
                               (fp_mul Binary64 (aspect_correct options) (fp_floor sf))
                               (int_to_double img_width)) of
                       Inl e \<Rightarrow> Inl e
                     | Inr tw \<Rightarrow>
                         (case float_to_int
                                 (fp_mul Binary64 (fp_floor sf) (int_to_double img_height)) of
                            Inl e \<Rightarrow> Inl e
                          | Inr th \<Rightarrow> Inr (tw, th)))
               else Inr t)
      else Inr t)"

text \<open>The lower clamp of the stretch, \<open>1 / 5.0f\<close> in \<open>float\<close>, as a rational.\<close>

definition min_stretch :: rat where
  "min_stretch = 13421773 / 67108864"

section \<open>LabelTemplater: \<open>ImageSource::FormatFromParameters\<close> and \<open>Basename\<close>\<close>

text \<open>
  \<open>std::string::find_last_of(chars)\<close>: the largest index whose character is one of
  \<open>chars\<close>; \<open>None\<close> stands for \<open>std::string::npos\<close>.
\<close>

fun find_last_of :: "string \<Rightarrow> string \<Rightarrow> nat option" where
  "find_last_of [] cs = None"
| "find_last_of (x # xs) cs =
     (case find_last_of xs cs of
        Some p \<Rightarrow> Some (Suc p)
      | None \<Rightarrow> (if x \<in> set cs then Some 0 else None))"

text \<open>The two separators of \<open>Basename\<close>: the C++ literal \<open>"/\\"\<close>, a slash and a backslash.\<close>

definition path_separators :: string where
  "path_separators = [CHR ''/'', CHR 0x5C]"

text \<open>\<open>filename.substr(pos)\<close> for \<open>pos \<le> length\<close> (the only way \<open>Basename\<close> calls it).\<close>

definition substr :: "string \<Rightarrow> nat \<Rightarrow> string" where
  "substr s pos = drop pos s"

definition Basename :: "string \<Rightarrow> string" where
  "Basename filename =
     (case find_last_of filename path_separators of
        None \<Rightarrow> filename
      | Some last_slash_pos \<Rightarrow> substr filename (last_slash_pos + 1))"

text \<open>\<open>operator<<(int)\<close> of a stream in its default state: decimal, a minus sign for negatives.\<close>

definition digit_char :: "nat \<Rightarrow> char" where
  "digit_char d = ''0123456789'' ! d"

fun dec_nat :: "nat \<Rightarrow> string" where
  "dec_nat n = (if n < 10 then [digit_char n] else dec_nat (n div 10) @ [digit_char (n mod 10)])"

declare dec_nat.simps [simp del]

definition dec_int :: "int \<Rightarrow> string" where
  "dec_int i = (if i < 0 then CHR ''-'' # dec_nat (nat (- i)) else dec_nat (nat i))"

text \<open>The \<open>switch\<close> on the character after a percent sign.\<close>

definition fmt_escape :: "string \<Rightarrow> int \<Rightarrow> int \<Rightarrow> string \<Rightarrow> char \<Rightarrow> string" where
  "fmt_escape filename orig_width orig_height decoder c =
     (if c = CHR ''f'' then filename
      else if c = CHR ''b'' then Basename filename
      else if c = CHR ''w'' then dec_int orig_width
      else if c = CHR ''h'' then dec_int orig_height
      else if c = CHR ''D'' then decoder
      else [c])"

text \<open>
  The \<open>for\<close> loop of \<open>FormatFromParameters\<close>, with the index \<open>i\<close> and the stream
  \<open>result\<close> as loop state. The body only runs for \<open>i < length\<close>, so the unsigned
  \<open>fmt_string.length() - 1\<close> does not wrap there.
\<close>

function fmt_loop ::
  "string \<Rightarrow> string \<Rightarrow> int \<Rightarrow> int \<Rightarrow> string \<Rightarrow> nat \<Rightarrow> string \<Rightarrow> string" where
  "fmt_loop fmt_string filename orig_width orig_height decoder i result =
     (if i < length fmt_string then
        (if fmt_string ! i \<noteq> CHR ''%'' \<or> i \<ge> length fmt_string - 1
         then fmt_loop fmt_string filename orig_width orig_height decoder (i + 1)
                (result @ [fmt_string ! i])
         else fmt_loop fmt_string filename orig_width orig_height decoder (i + 1 + 1)
                (result @ fmt_escape filename orig_width orig_height decoder
                            (fmt_string ! (i + 1))))
      else result)"
  by pat_completeness auto
termination
  by (relation "measure (\<lambda>(fmt_string, filename, w, h, decoder, i, result). length fmt_string - i)")
     auto

declare fmt_loop.simps [simp del]

definition FormatFromParameters :: "string \<Rightarrow> string \<Rightarrow> int \<Rightarrow> int \<Rightarrow> string \<Rightarrow> string" where
  "FormatFromParameters fmt_string filename orig_width orig_height decoder =
     fmt_loop fmt_string filename orig_width orig_height decoder 0 []"

text \<open>
  The expansion as the specification words it: one scan from the left, a percent sign
  followed by a character is an escape for that character, everything else is copied.
\<close>

fun Expand_spec :: "string \<Rightarrow> int \<Rightarrow> int \<Rightarrow> string \<Rightarrow> string \<Rightarrow> string" where
  "Expand_spec filename w h decoder [] = []"
| "Expand_spec filename w h decoder [c] = [c]"
| "Expand_spec filename w h decoder (c # d # rest) =
     (if c = CHR ''%'' then fmt_escape filename w h decoder d @ Expand_spec filename w h decoder rest
      else c # Expand_spec filename w h decoder (d # rest))"

text \<open>
  Decimal text as the specification means it, read back: the digits \<open>0\<close> to \<open>9\<close> count
  from the left in base ten; the text of a natural number has at least one digit and no
  leading zero, except for \<open>0\<close> itself; the text of a negative number is a minus sign and
  the text of its absolute value.
\<close>

definition is_decimal_digit :: "char \<Rightarrow> bool" where
  "is_decimal_digit c \<longleftrightarrow> 48 \<le> (of_char c :: nat) \<and> (of_char c :: nat) \<le> 57"

definition decimal_digit_value :: "char \<Rightarrow> nat" where
  "decimal_digit_value c = of_char c - 48"

definition decimal_nat_value :: "string \<Rightarrow> nat" where
  "decimal_nat_value ds = foldl (\<lambda>n c. 10 * n + decimal_digit_value c) 0 ds"

definition is_decimal_nat :: "string \<Rightarrow> bool" where
  "is_decimal_nat ds \<longleftrightarrow>
     ds \<noteq> [] \<and> list_all is_decimal_digit ds \<and> (ds = ''0'' \<or> hd ds \<noteq> CHR ''0'')"

definition decimal_value :: "string \<Rightarrow> int option" where
  "decimal_value s =
     (case s of
        [] \<Rightarrow> None
      | c # ds \<Rightarrow>
          if c = CHR ''-''
          then (if is_decimal_nat ds \<and> ds \<noteq> ''0'' then Some (- int (decimal_nat_value ds))
                else None)
          else if is_decimal_nat s then Some (int (decimal_nat_value s)) else None)"

section \<open>ChunkSniffer: \<open>HasAPNGHeader\<close> and \<open>ImageSource::LooksLikeAPNG\<close>\<close>

text \<open>
  \<open>pread(fd, buf, 8, pos)\<close> either fails (a negative return value) or stores some bytes
  in \<open>buf\<close> and returns their number. An open file descriptor is the function from the
  offset to that outcome, and \<open>open(filename, O_RDONLY)\<close> gives a descriptor or fails.
\<close>

type_synonym byte = "8 word"

datatype pread_result = PreadFailed | PreadBytes "byte list"

type_synonym file_descriptor = "nat \<Rightarrow> pread_result"

type_synonym file_system = "string \<Rightarrow> file_descriptor option"

text \<open>The descriptor of a regular file with the given contents.\<close>

definition regular_file :: "byte list \<Rightarrow> file_descriptor" where
  "regular_file contents pos = PreadBytes (take 8 (drop pos contents))"

text \<open>\<open>ntohl(*(uint32_t * )buf)\<close>: the first four bytes as a big-endian \<open>uint32_t\<close>.\<close>

definition ntohl_buf :: "byte list \<Rightarrow> 32 word" where
  "ntohl_buf buf =
     push_bit 24 (ucast (buf ! 0)) + push_bit 16 (ucast (buf ! 1))
       + push_bit 8 (ucast (buf ! 2)) + ucast (buf ! 3)"

text \<open>The bytes of \<open>"acTL"\<close>.\<close>

definition acTL :: "byte list" where
  "acTL = [0x61, 0x63, 0x54, 0x4C]"

text \<open>
  The \<open>while\<close> loop of \<open>HasAPNGHeader\<close>, with \<open>found_actl_header\<close> and \<open>pos\<close> as loop
  state. Nothing in the loop bounds the number of rounds, so the result is an option and
  \<open>None\<close> is a loop that never ends. \<open>ntohl(...) + 12\<close> is an addition of
  \<open>uint32_t\<close>, which wraps at \<open>2\<^sup>3\<^sup>2\<close>; \<open>pos\<close> is a 64-bit \<open>size_t\<close>, below 1024
  before the addition, so that sum does not wrap.
\<close>

partial_function (option) actl_loop :: "file_descriptor \<Rightarrow> bool \<Rightarrow> nat \<Rightarrow> bool option" where
  "actl_loop fd found_actl_header pos =
     (if \<not> found_actl_header \<and> pos < 1024 then
        (case fd pos of
           PreadFailed \<Rightarrow> Some found_actl_header
         | PreadBytes buf \<Rightarrow>
             if length buf \<noteq> 8 then Some found_actl_header
             else actl_loop fd (drop 4 buf = acTL) (pos + unat (ntohl_buf buf + 12)))
      else Some found_actl_header)"

definition kPngHeaderLen :: nat where
  "kPngHeaderLen = 8"

definition HasAPNGHeader :: "file_system \<Rightarrow> string \<Rightarrow> bool option" where
  "HasAPNGHeader fs filename =
     (case fs filename of
        None \<Rightarrow> Some False
      | Some fd \<Rightarrow> actl_loop fd False kPngHeaderLen)"

text \<open>
  The walk as the specification words it: from the given offset, a chunk with the marker
  at an offset below 1024 is a hit, any other chunk moves the offset by its declared
  length plus 12, and a failed or short read ends the walk. The fuel bounds the number of
  chunks looked at; every step moves on by at least 12, so 1024 is more than enough.
\<close>

fun spec_walk :: "nat \<Rightarrow> file_descriptor \<Rightarrow> nat \<Rightarrow> bool" where
  "spec_walk 0 fd pos = False"
| "spec_walk (Suc n) fd pos =
     (if pos < 1024 then
        (case fd pos of
           PreadFailed \<Rightarrow> False
         | PreadBytes buf \<Rightarrow>
             if length buf \<noteq> 8 then False
             else if drop 4 buf = acTL then True
             else spec_walk n fd (pos + (unat (ntohl_buf buf) + 12)))
      else False)"

text \<open>
  C strings. \<open>filename.c_str()\<close> is the buffer of the characters followed by a
  terminating zero; \<open>strlen\<close> counts up to the first zero. A read at an index outside the
  buffer is an error of the model.
\<close>

datatype mem_error = OutOfBounds

definition c_str :: "string \<Rightarrow> string" where
  "c_str s = s @ [CHR 0x00]"

definition strlen :: "string \<Rightarrow> nat" where
  "strlen buf = length (takeWhile (\<lambda>c. c \<noteq> CHR 0x00) buf)"

definition char_at :: "string \<Rightarrow> int \<Rightarrow> mem_error + char" where
  "char_at buf i = (if 0 \<le> i \<and> i < int (length buf) then Inr (buf ! nat i) else Inl OutOfBounds)"

definition tolower :: "char \<Rightarrow> char" where
  "tolower c =
     (if 65 \<le> (of_char c :: nat) \<and> (of_char c :: nat) \<le> 90 then char_of (of_char c + 32 :: nat)
      else c)"

text \<open>
  \<open>strcasecmp(buf + i, s2) == 0\<close>, where \<open>s2\<close> is a buffer with its terminating zero:
  the characters are compared in lower case, one by one, up to the first difference or
  the terminating zero.
\<close>

fun strcasecmp_eq :: "string \<Rightarrow> int \<Rightarrow> string \<Rightarrow> mem_error + bool" where
  "strcasecmp_eq buf i [] = Inl OutOfBounds"
| "strcasecmp_eq buf i (c2 # s2) =
     (case char_at buf i of
        Inl e \<Rightarrow> Inl e
      | Inr c1 \<Rightarrow>
          if tolower c1 \<noteq> tolower c2 then Inr False
          else if c1 = CHR 0x00 then Inr True
          else strcasecmp_eq buf (i + 1) s2)"

text \<open>
  The loop of \<open>LooksLikeAPNG\<close> over the endings: the comparison starts at
  \<open>file + strlen(file) - strlen(ending)\<close>, whatever the two lengths are.
\<close>

fun apng_endings :: "file_system \<Rightarrow> string \<Rightarrow> string list \<Rightarrow> (mem_error + bool) option" where
  "apng_endings fs filename [] = Some (Inr False)"
| "apng_endings fs filename (ending # endings) =
     (case strcasecmp_eq (c_str filename)
             (int (strlen (c_str filename)) - int (strlen (c_str ending))) (c_str ending) of
        Inl e \<Rightarrow> Some (Inl e)
      | Inr False \<Rightarrow> apng_endings fs filename endings
      | Inr True \<Rightarrow>
          (case HasAPNGHeader fs filename of
             None \<Rightarrow> None
           | Some True \<Rightarrow> Some (Inr True)
           | Some False \<Rightarrow> apng_endings fs filename endings))"

definition LooksLikeAPNG :: "file_system \<Rightarrow> string \<Rightarrow> (mem_error + bool) option" where
  "LooksLikeAPNG fs filename = apng_endings fs filename [''.png'', ''.apng'']"

section \<open>DecoderProbe: \<open>ImageSource::Create\<close>\<close>

text \<open>
  The backends are outside this unit. What \<open>Create\<close> sees of them is the order in which
  the preprocessor leaves them in, and what comes of constructing one and calling its
  \<open>LoadAndScale\<close>: the call returns \<open>true\<close> or \<open>false\<close>, or an exception leaves it.
  \<open>Create\<close> has no \<open>try\<close> block, so an exception that leaves the call leaves
  \<open>Create\<close> as well.
\<close>

datatype 'a outcome = Returns 'a | Throws

datatype decoder =
  OpenSlideSource | QOIImageSource | JPEGSource | SVGImageSource | PDFImageSource
  | GraphicsMagickSource | STBImageSource | VideoSource

record build_config =
  WITH_TIMG_OPENSLIDE_SUPPORT :: bool
  WITH_TIMG_QOI :: bool
  WITH_TIMG_JPEG :: bool
  WITH_TIMG_RSVG :: bool
  WITH_TIMG_POPPLER :: bool
  WITH_TIMG_GRPAPHICSMAGICK :: bool
  WITH_TIMG_STB :: bool
  WITH_TIMG_VIDEO :: bool

text \<open>
  The operating system, as far as \<open>Create\<close> asks: \<open>stat\<close> fails with an \<open>errno\<close> or
  tells whether the path is a directory, \<open>access(path, R_OK)\<close> fails with an \<open>errno\<close>
  or succeeds, and \<open>strerror\<close> names an \<open>errno\<close>.
\<close>

datatype stat_result = StatFailed nat | StatOk bool

record environment =
  LoadAndScale :: "decoder \<Rightarrow> string \<Rightarrow> DisplayOptions \<Rightarrow> int \<Rightarrow> int \<Rightarrow> bool outcome"
  stat :: "string \<Rightarrow> stat_result"
  access_R_OK :: "string \<Rightarrow> nat option"
  strerror :: "nat \<Rightarrow> string"

text \<open>Lines 162 to 221: the candidates in the order of the source text.\<close>

definition image_backends :: "build_config \<Rightarrow> decoder list" where
  "image_backends cfg =
     (if WITH_TIMG_OPENSLIDE_SUPPORT cfg then [OpenSlideSource] else [])
     @ (if WITH_TIMG_QOI cfg then [QOIImageSource] else [])
     @ (if WITH_TIMG_JPEG cfg then [JPEGSource] else [])
     @ (if WITH_TIMG_RSVG cfg then [SVGImageSource] else [])
     @ (if WITH_TIMG_POPPLER cfg then [PDFImageSource] else [])
     @ (if WITH_TIMG_GRPAPHICSMAGICK cfg then [GraphicsMagickSource] else [])
     @ (if WITH_TIMG_STB cfg then [STBImageSource] else [])"

definition candidates :: "build_config \<Rightarrow> bool \<Rightarrow> bool \<Rightarrow> decoder list" where
  "candidates cfg attempt_image_loading attempt_video_loading =
     (if attempt_image_loading then image_backends cfg else [])
     @ (if WITH_TIMG_VIDEO cfg \<and> attempt_video_loading then [VideoSource] else [])"

text \<open>
  Each candidate is constructed and asked to load; the first that loads is returned, and
  an exception ends the probing. The second component is the list of the candidates that
  were asked, in order.
\<close>

fun probe ::
  "(decoder \<Rightarrow> bool outcome) \<Rightarrow> decoder list \<Rightarrow> decoder list
     \<Rightarrow> (decoder option \<times> decoder list) outcome" where
  "probe load [] tried = Returns (None, tried)"
| "probe load (d # ds) tried =
     (case load d of
        Throws \<Rightarrow> Throws
      | Returns loaded \<Rightarrow>
          if loaded then Returns (Some d, tried @ [d]) else probe load ds (tried @ [d]))"

text \<open>Lines 224 to 235: is this even an accessible file?\<close>

definition file_diagnosis :: "environment \<Rightarrow> string \<Rightarrow> string \<Rightarrow> string" where
  "file_diagnosis env filename error =
     (if filename \<noteq> ''-'' then
        (case stat env filename of
           StatFailed errno \<Rightarrow> error @ filename @ '': '' @ strerror env errno
         | StatOk is_dir \<Rightarrow>
             if is_dir then error @ filename @ '': is a directory''
             else (case access_R_OK env filename of
                     Some errno \<Rightarrow> error @ filename @ '': '' @ strerror env errno
                   | None \<Rightarrow> error))
      else error)"

text \<open>Lines 239 to 243, compiled with video support.\<close>

definition stdin_hint :: "string \<Rightarrow> string \<Rightarrow> string" where
  "stdin_hint filename error =
     (if filename = ''-'' \<or> filename = ''/dev/stdin''
      then ''If this is a video on stdin, use '' @ [CHR 0x27] @ ''-V'' @ [CHR 0x27]
             @ '' to skip image probing''
      else error)"

text \<open>
  Lines 245 to 260, compiled without video support. Here the comparison starts at
  \<open>end_filename - suffix_len\<close>, and a suffix longer than the filename is skipped first.
\<close>

definition video_suffixes :: "string list" where
  "video_suffixes = [''.mov'', ''.mp4'', ''.mkv'', ''.avi'', ''.wmv'', ''.webm'']"

fun video_suffix_loop :: "string \<Rightarrow> string list \<Rightarrow> (mem_error + bool)" where
  "video_suffix_loop filename [] = Inr False"
| "video_suffix_loop filename (sfx # rest) =
     (if length filename < strlen (c_str sfx) then video_suffix_loop filename rest
      else (case strcasecmp_eq (c_str filename)
                   (int (length filename) - int (strlen (c_str sfx))) (c_str sfx) of
              Inl e \<Rightarrow> Inl e
            | Inr True \<Rightarrow> Inr True
            | Inr False \<Rightarrow> video_suffix_loop filename rest))"

definition video_hint :: "string \<Rightarrow> string \<Rightarrow> mem_error + string" where
  "video_hint filename error =
     (if error = [] then
        (case video_suffix_loop filename video_suffixes of
           Inl e \<Rightarrow> Inl e
         | Inr True \<Rightarrow>
             Inr (error @ filename
                  @ '': looks like a video file, but video support not compiled into this timg.'')
         | Inr False \<Rightarrow> Inr error)
      else Inr error)"

text \<open>Lines 223 to 262: the error text when no candidate loaded.\<close>

definition failure_text :: "build_config \<Rightarrow> environment \<Rightarrow> string \<Rightarrow> string \<Rightarrow> mem_error + string" where
  "failure_text cfg env filename error =
     (if WITH_TIMG_VIDEO cfg then Inr (stdin_hint filename (file_diagnosis env filename error))
      else video_hint filename (file_diagnosis env filename error))"

text \<open>
  \<open>Create\<close> returns the source or \<open>nullptr\<close>, and leaves a text in \<open>*error\<close>. The model
  returns both, and the candidates that were asked to load; or \<open>Create\<close> does not return
  because an exception leaves it.
\<close>

record create_result =
  source :: "decoder option"
  error_text :: string
  attempted :: "decoder list"

definition Create ::
  "build_config \<Rightarrow> environment \<Rightarrow> string \<Rightarrow> DisplayOptions \<Rightarrow> int \<Rightarrow> int \<Rightarrow> bool \<Rightarrow> bool
     \<Rightarrow> string \<Rightarrow> (mem_error + create_result) outcome" where
  "Create cfg env filename options frame_offset frame_count attempt_image_loading
     attempt_video_loading error =
     (case probe (\<lambda>d. LoadAndScale env d filename options frame_offset frame_count)
             (candidates cfg attempt_image_loading attempt_video_loading) [] of
        Throws \<Rightarrow> Throws
      | Returns (Some d, tried) \<Rightarrow>
          Returns (Inr \<lparr> source = Some d, error_text = error, attempted = tried \<rparr>)
      | Returns (None, tried) \<Rightarrow>
          (case failure_text cfg env filename error of
             Inl e \<Rightarrow> Returns (Inl e)
           | Inr msg \<Rightarrow>
               Returns (Inr \<lparr> source = None, error_text = msg, attempted = tried \<rparr>)))"

text \<open>
  The same order written once: the image backends of the source text from top to bottom,
  and the preprocessor symbol that compiles each of them in.
\<close>

definition image_backend_order :: "decoder list" where
  "image_backend_order =
     [OpenSlideSource, QOIImageSource, JPEGSource, SVGImageSource, PDFImageSource,
      GraphicsMagickSource, STBImageSource]"

fun compiled_in :: "build_config \<Rightarrow> decoder \<Rightarrow> bool" where
  "compiled_in cfg OpenSlideSource = WITH_TIMG_OPENSLIDE_SUPPORT cfg"
| "compiled_in cfg QOIImageSource = WITH_TIMG_QOI cfg"
| "compiled_in cfg JPEGSource = WITH_TIMG_JPEG cfg"
| "compiled_in cfg SVGImageSource = WITH_TIMG_RSVG cfg"
| "compiled_in cfg PDFImageSource = WITH_TIMG_POPPLER cfg"
| "compiled_in cfg GraphicsMagickSource = WITH_TIMG_GRPAPHICSMAGICK cfg"
| "compiled_in cfg STBImageSource = WITH_TIMG_STB cfg"
| "compiled_in cfg VideoSource = WITH_TIMG_VIDEO cfg"

section \<open>Concrete inputs\<close>

text \<open>The options of the examples: a box of 200 by 200, nothing else set.\<close>

definition box_200 :: DisplayOptions where
  "box_200 =
     \<lparr> width = 200, height = 200, fill_width = False, fill_height = False, upscale = False,
       upscale_integer = False, width_stretch = Finite 1, cell_x_px = 0, cell_y_px = 0 \<rparr>"

text \<open>A build with every backend.\<close>

definition full_build :: build_config where
  "full_build =
     \<lparr> WITH_TIMG_OPENSLIDE_SUPPORT = True, WITH_TIMG_QOI = True, WITH_TIMG_JPEG = True,
       WITH_TIMG_RSVG = True, WITH_TIMG_POPPLER = True, WITH_TIMG_GRPAPHICSMAGICK = True,
       WITH_TIMG_STB = True, WITH_TIMG_VIDEO = True \<rparr>"


text \<open>A system where no path exists (\<open>errno\<close> 2 is \<open>ENOENT\<close>) and no backend loads.\<close>

definition nothing_there :: environment where
  "nothing_there =
     \<lparr> LoadAndScale = (\<lambda>d f opts off cnt. Returns False),
       stat = (\<lambda>f. StatFailed 2),
       access_R_OK = (\<lambda>f. None),
       strerror = (\<lambda>e. if e = 2 then ''No such file or directory'' else ''Unknown error'') \<rparr>"

text \<open>
  A file on which the JPEG backend throws, where every other backend returns \<open>false\<close>.
\<close>

definition jpeg_throws :: environment where
  "jpeg_throws =
     \<lparr> LoadAndScale = (\<lambda>d f opts off cnt. if d = JPEGSource then Throws else Returns False),
       stat = (\<lambda>f. StatOk False),
       access_R_OK = (\<lambda>f. None),
       strerror = (\<lambda>e. ''Unknown error'') \<rparr>"

text \<open>A file system with one regular file.\<close>

definition single_file :: "string \<Rightarrow> byte list \<Rightarrow> file_system" where
  "single_file name contents f = (if f = name then Some (regular_file contents) else None)"

text \<open>
  The PNG signature, then a chunk \<open>IHDR\<close> that declares the length \<open>0xFFFFFFFC\<close>, then
  a chunk \<open>acTL\<close> at offset 16.
\<close>

definition wrapping_png :: "byte list" where
  "wrapping_png =
     [0x89, 0x50, 0x4E, 0x47, 0x0D, 0x0A, 0x1A, 0x0A,
      0xFF, 0xFF, 0xFF, 0xFC, 0x49, 0x48, 0x44, 0x52,
      0x00, 0x00, 0x00, 0x08, 0x61, 0x63, 0x54, 0x4C]"

text \<open>The PNG signature, then a chunk \<open>IHDR\<close> that declares the length \<open>0xFFFFFFF4\<close>.\<close>

definition looping_png :: "byte list" where
  "looping_png =
     [0x89, 0x50, 0x4E, 0x47, 0x0D, 0x0A, 0x1A, 0x0A,
      0xFF, 0xFF, 0xFF, 0xF4, 0x49, 0x48, 0x44, 0x52]"

section \<open>Properties of the arithmetic\<close>

lemma pow2_powi: "pow2 e = 2 powi e"
  by (simp add: pow2_def power_int_def power_one_over inverse_eq_divide)

lemma pow2_pos [simp]: "0 < pow2 e"
  by (simp add: pow2_powi)

lemma pow2_add: "pow2 (a + b) = pow2 a * pow2 b"
  by (simp add: pow2_powi power_int_add)

lemma pow2_mono: "a \<le> b \<Longrightarrow> pow2 a \<le> pow2 b"
  by (simp add: pow2_powi power_int_increasing)

lemma pow2_nat: "0 \<le> e \<Longrightarrow> pow2 e = 2 ^ nat e"
  by (simp add: pow2_def)

lemma pow2_0 [simp]: "pow2 0 = 1"
  by (simp add: pow2_def)

lemma ilog2_bounds:
  assumes "0 < x"
  shows "pow2 (ilog2 x) \<le> x" and "x < pow2 (ilog2 x + 1)"
proof -
  obtain p q where pq: "quotient_of x = (p, q)" by (cases "quotient_of x")
  then have q: "0 < q" and x: "x = of_int p / of_int q"
    by (simp_all add: quotient_of_denom_pos quotient_of_div)
  with assms have p: "0 < p"
    by (simp add: zero_less_divide_iff)
  define d where "d = bitlen p - bitlen q"
  have bp: "2 ^ nat (bitlen p - 1) \<le> p" "p < 2 ^ nat (bitlen p)"
    using bitlen_bounds [OF p] by simp_all
  have bq: "2 ^ nat (bitlen q - 1) \<le> q" "q < 2 ^ nat (bitlen q)"
    using bitlen_bounds [OF q] by simp_all
  have p1: "1 \<le> bitlen p" and q1: "1 \<le> bitlen q"
    using p q by (simp_all add: bitlen_alt_def)
  have rp: "pow2 (bitlen p - 1) \<le> of_int p" "(of_int p :: rat) < pow2 (bitlen p)"
  proof -
    have "(of_int (2 ^ nat (bitlen p - 1)) :: rat) \<le> of_int p"
      using bp(1) by (simp only: of_int_le_iff)
    then show "pow2 (bitlen p - 1) \<le> of_int p"
      using p1 by (simp add: pow2_nat)
    have "(of_int p :: rat) < of_int (2 ^ nat (bitlen p))"
      using bp(2) by (simp only: of_int_less_iff)
    then show "(of_int p :: rat) < pow2 (bitlen p)"
      using p1 by (simp add: pow2_nat)
  qed
  have rq: "pow2 (bitlen q - 1) \<le> of_int q" "(of_int q :: rat) < pow2 (bitlen q)"
  proof -
    have "(of_int (2 ^ nat (bitlen q - 1)) :: rat) \<le> of_int q"
      using bq(1) by (simp only: of_int_le_iff)
    then show "pow2 (bitlen q - 1) \<le> of_int q"
      using q1 by (simp add: pow2_nat)
    have "(of_int q :: rat) < of_int (2 ^ nat (bitlen q))"
      using bq(2) by (simp only: of_int_less_iff)
    then show "(of_int q :: rat) < pow2 (bitlen q)"
      using q1 by (simp add: pow2_nat)
  qed
  have qpos: "(0::rat) < of_int q" using q by simp
  have lo: "pow2 (d - 1) \<le> x"
  proof -
    have "pow2 (d - 1) * of_int q \<le> pow2 (d - 1) * pow2 (bitlen q)"
      using rq(2) by (simp add: less_imp_le)
    also have "\<dots> = pow2 (bitlen p - 1)"
      by (simp add: d_def flip: pow2_add)
    also have "\<dots> \<le> of_int p" by (rule rp(1))
    finally show ?thesis
      using qpos by (simp add: x pos_le_divide_eq)
  qed
  have hi: "x < pow2 (d + 1)"
  proof -
    have "of_int p < pow2 (bitlen p)" by (rule rp(2))
    also have "\<dots> = pow2 (d + 1) * pow2 (bitlen q - 1)"
      by (simp add: d_def flip: pow2_add)
    also have "\<dots> \<le> pow2 (d + 1) * of_int q"
      using rq(1) by simp
    finally show ?thesis
      using qpos by (simp add: x pos_divide_less_eq)
  qed
  have il: "ilog2 x = (if pow2 d \<le> x then d else d - 1)"
    by (simp add: ilog2_def pq d_def Let_def)
  show "pow2 (ilog2 x) \<le> x"
    using lo by (simp add: il)
  show "x < pow2 (ilog2 x + 1)"
    using hi by (simp add: il not_le)
qed

lemma ilog2_unique:
  assumes "pow2 e \<le> x" "x < pow2 (e + 1)"
  shows "ilog2 x = e"
proof -
  have x: "0 < x" using assms(1) pow2_pos [of e] by linarith
  note b = ilog2_bounds [OF x]
  have "\<not> ilog2 x < e"
  proof
    assume "ilog2 x < e"
    then have "pow2 (ilog2 x + 1) \<le> pow2 e" by (intro pow2_mono) simp
    with b(2) assms(1) show False by linarith
  qed
  moreover have "\<not> e < ilog2 x"
  proof
    assume "e < ilog2 x"
    then have "pow2 (e + 1) \<le> pow2 (ilog2 x)" by (intro pow2_mono) simp
    with b(1) assms(2) show False by linarith
  qed
  ultimately show ?thesis by simp
qed

lemma ilog2_mono:
  assumes "0 < x" "x \<le> y"
  shows "ilog2 x \<le> ilog2 y"
proof (rule ccontr)
  assume "\<not> ilog2 x \<le> ilog2 y"
  then have "ilog2 y + 1 \<le> ilog2 x" by simp
  then have "pow2 (ilog2 y + 1) \<le> pow2 (ilog2 x)" by (rule pow2_mono)
  moreover have "0 < y" using assms by simp
  ultimately show False
    using ilog2_bounds(1) [OF assms(1)] ilog2_bounds(2) [OF \<open>0 < y\<close>] assms(2) by linarith
qed

lemma round_half_even_of_int [simp]: "round_half_even (of_int n) = n"
  by (simp add: round_half_even_def)

lemma round_half_even_bounds:
  "of_int (round_half_even x) \<le> x + 1 / 2" "x - 1 / 2 \<le> of_int (round_half_even x)"
  by (auto simp: round_half_even_def Let_def) linarith+

lemma round_half_even_floor: "\<lfloor>x\<rfloor> \<le> round_half_even x" "round_half_even x \<le> \<lfloor>x\<rfloor> + 1"
  by (auto simp: round_half_even_def Let_def)

lemma round_half_even_mono:
  assumes "x \<le> y"
  shows "round_half_even x \<le> round_half_even y"
proof (cases "\<lfloor>x\<rfloor> = \<lfloor>y\<rfloor>")
  case True
  with assms show ?thesis
    by (auto simp: round_half_even_def Let_def)
next
  case False
  with assms have "\<lfloor>x\<rfloor> + 1 \<le> \<lfloor>y\<rfloor>"
    using floor_mono [OF assms] by linarith
  with round_half_even_floor(2) [of x] round_half_even_floor(1) [of y] show ?thesis
    by linarith
qed

lemma prec_pos: "1 \<le> prec f"
  by (cases f) simp_all

lemma emin_neg: "emin f \<le> 0"
  by (cases f) simp_all

lemma ulp_of_pos [simp]: "0 < ulp_of f x"
  by (simp add: ulp_of_def)

lemma ulp_of_nonneg [simp]: "0 \<le> ulp_of f x"
  by (rule less_imp_le) (rule ulp_of_pos)

lemma ulp_of_neq0 [simp]: "ulp_of f x \<noteq> 0"
  using ulp_of_pos [of f x] by linarith

lemma pow2_neq0 [simp]: "pow2 e \<noteq> 0"
  using pow2_pos [of e] by linarith

lemma round_mag_zero [simp]: "round_mag f 0 = 0"
  by (simp add: round_mag_def round_half_even_def)

lemma round_mag_nonneg: "0 \<le> x \<Longrightarrow> 0 \<le> round_mag f x"
proof -
  assume "0 \<le> x"
  then have "0 \<le> x / ulp_of f x" by (rule divide_nonneg_pos) simp
  then have "round_half_even 0 \<le> round_half_even (x / ulp_of f x)"
    by (rule round_half_even_mono)
  then show ?thesis
    by (simp add: round_mag_def round_half_even_def)
qed

text \<open>The rounded value stays within the binade of the argument.\<close>

lemma round_mag_binade:
  fixes f :: fp_format and x :: rat
  assumes "0 < x"
  defines "e \<equiv> max (ilog2 x) (emin f)"
  shows "round_mag f x \<le> pow2 (e + 1)"
    and "emin f \<le> ilog2 x \<Longrightarrow> pow2 e \<le> round_mag f x"
proof -
  let ?p = "int (prec f)"
  have u: "ulp_of f x = pow2 (e - ?p + 1)"
    by (simp add: ulp_of_def e_def)
  have p1: "1 \<le> ?p" using prec_pos [of f] by simp
  have "x < pow2 (ilog2 x + 1)" by (rule ilog2_bounds(2) [OF assms(1)])
  also have "\<dots> \<le> pow2 (e + 1)" by (rule pow2_mono) (simp add: e_def)
  finally have "x / ulp_of f x \<le> pow2 (e + 1) / ulp_of f x"
    by (intro divide_right_mono less_imp_le) simp_all
  also have "\<dots> = pow2 ?p"
  proof -
    have "pow2 (e + 1) = pow2 ?p * pow2 (e - ?p + 1)"
      by (simp flip: pow2_add)
    then show ?thesis by (simp add: u)
  qed
  also have "\<dots> = of_int (2 ^ prec f)"
    by (simp add: pow2_nat)
  finally have "round_half_even (x / ulp_of f x) \<le> round_half_even (of_int (2 ^ prec f))"
    by (rule round_half_even_mono)
  then have "(of_int (round_half_even (x / ulp_of f x)) :: rat) \<le> of_int (2 ^ prec f)"
    unfolding round_half_even_of_int by (simp only: of_int_le_iff)
  then have "round_mag f x \<le> of_int (2 ^ prec f) * ulp_of f x"
    by (simp add: round_mag_def mult_right_mono)
  also have "\<dots> = pow2 ?p * pow2 (e - ?p + 1)"
    by (simp add: u pow2_nat)
  also have "\<dots> = pow2 (e + 1)"
    by (simp flip: pow2_add)
  finally show "round_mag f x \<le> pow2 (e + 1)" .
  show "pow2 e \<le> round_mag f x" if "emin f \<le> ilog2 x"
  proof -
    from that have e: "e = ilog2 x" by (simp add: e_def)
    have "pow2 e \<le> x" unfolding e by (rule ilog2_bounds(1) [OF assms(1)])
    then have "pow2 e / ulp_of f x \<le> x / ulp_of f x"
      by (rule divide_right_mono) simp
    moreover have "pow2 e / ulp_of f x = pow2 (?p - 1)"
    proof -
      have "pow2 e = pow2 (?p - 1) * pow2 (e - ?p + 1)"
        by (simp flip: pow2_add)
      then show ?thesis by (simp add: u)
    qed
    moreover have "pow2 (?p - 1) = of_int (2 ^ (prec f - 1))"
      using p1 by (simp add: pow2_nat nat_diff_distrib)
    ultimately have "round_half_even (of_int (2 ^ (prec f - 1))) \<le> round_half_even (x / ulp_of f x)"
      by (intro round_half_even_mono) simp
    then have "(of_int (2 ^ (prec f - 1)) :: rat) \<le> of_int (round_half_even (x / ulp_of f x))"
      unfolding round_half_even_of_int by (simp only: of_int_le_iff)
    then have "of_int (2 ^ (prec f - 1)) * ulp_of f x \<le> round_mag f x"
      by (simp add: round_mag_def mult_right_mono)
    moreover have "of_int (2 ^ (prec f - 1)) * ulp_of f x = pow2 (?p - 1) * pow2 (e - ?p + 1)"
      using p1 by (simp add: u pow2_nat nat_diff_distrib)
    moreover have "\<dots> = pow2 e"
      by (simp flip: pow2_add)
    ultimately show ?thesis by simp
  qed
qed

lemma round_mag_mono:
  assumes "0 \<le> x" "x \<le> y"
  shows "round_mag f x \<le> round_mag f y"
proof (cases "x = 0")
  case True
  with assms show ?thesis by (simp add: round_mag_nonneg)
next
  case False
  with assms have x: "0 < x" and y: "0 < y" by simp_all
  let ?ex = "max (ilog2 x) (emin f)" and ?ey = "max (ilog2 y) (emin f)"
  have le: "?ex \<le> ?ey"
    using ilog2_mono [OF x assms(2)] by simp
  show ?thesis
  proof (cases "?ex = ?ey")
    case True
    then have u: "ulp_of f x = ulp_of f y" by (simp add: ulp_of_def)
    have "x / ulp_of f y \<le> y / ulp_of f y"
      using assms(2) by (rule divide_right_mono) simp
    then have "round_half_even (x / ulp_of f y) \<le> round_half_even (y / ulp_of f y)"
      by (rule round_half_even_mono)
    then have "(of_int (round_half_even (x / ulp_of f y)) :: rat)
        \<le> of_int (round_half_even (y / ulp_of f y))"
      by (simp only: of_int_le_iff)
    then show ?thesis
      by (simp add: round_mag_def u mult_right_mono)
  next
    case False
    with le have lt: "?ex + 1 \<le> ?ey" by simp
    then have "emin f \<le> ilog2 y" by simp
    from round_mag_binade(2) [OF y this] have "pow2 ?ey \<le> round_mag f y" .
    moreover have "round_mag f x \<le> pow2 (?ex + 1)"
      by (rule round_mag_binade(1) [OF x])
    moreover have "pow2 (?ex + 1) \<le> pow2 ?ey"
      by (rule pow2_mono) (rule lt)
    ultimately show ?thesis by linarith
  qed
qed

lemma pow2_nonneg [simp]: "0 \<le> pow2 e"
  by (rule less_imp_le) (rule pow2_pos)

lemma ilog2_ge:
  assumes "pow2 e \<le> x"
  shows "e \<le> ilog2 x"
proof (rule ccontr)
  assume "\<not> e \<le> ilog2 x"
  then have "ilog2 x + 1 \<le> e" by simp
  then have "pow2 (ilog2 x + 1) \<le> pow2 e" by (rule pow2_mono)
  moreover have "0 < x" using assms pow2_pos [of e] by linarith
  ultimately show False using ilog2_bounds(2) [of x] assms by linarith
qed

lemma ilog2_less:
  assumes "0 < x" "x < pow2 e"
  shows "ilog2 x < e"
proof (rule ccontr)
  assume "\<not> ilog2 x < e"
  then have "pow2 e \<le> pow2 (ilog2 x)" by (intro pow2_mono) simp
  with ilog2_bounds(1) [OF assms(1)] assms(2) show False by linarith
qed

text \<open>Integers of at most \<open>prec\<close> bits are floating-point numbers.\<close>

lemma round_mag_of_int:
  assumes "0 \<le> n" "n < 2 ^ prec f"
  shows "round_mag f (of_int n) = of_int n"
proof (cases "n = 0")
  case True
  then show ?thesis by simp
next
  case False
  with assms have n: "1 \<le> n" by simp
  let ?x = "of_int n :: rat" and ?p = "int (prec f)"
  have x1: "pow2 0 \<le> ?x" using n by simp
  have "?x < of_int (2 ^ prec f)" using assms(2) by (simp only: of_int_less_iff)
  then have xp: "?x < pow2 ?p" by (simp add: pow2_nat)
  have e0: "0 \<le> ilog2 ?x" by (rule ilog2_ge [OF x1])
  have ep: "ilog2 ?x < ?p" using n by (intro ilog2_less [OF _ xp]) simp
  define k where "k = nat (?p - 1 - ilog2 ?x)"
  have k: "int k = ?p - 1 - ilog2 ?x" using ep by (simp add: k_def)
  have m: "max (ilog2 ?x) (emin f) = ilog2 ?x"
    using e0 emin_neg [of f] by simp
  have "ilog2 ?x - ?p + 1 = - int k" using k by simp
  then have u: "ulp_of f ?x = pow2 (- int k)"
    by (simp only: ulp_of_def m)
  have inv: "pow2 (- int k) * 2 ^ k = 1"
  proof -
    have "pow2 (- int k) * pow2 (int k) = pow2 0" by (simp flip: pow2_add)
    then show ?thesis by (simp add: pow2_nat)
  qed
  have "?x / ulp_of f ?x = ?x * 2 ^ k"
    using inv by (simp add: u field_simps)
  also have "\<dots> = of_int (n * 2 ^ k)" by simp
  finally have "round_half_even (?x / ulp_of f ?x) = n * 2 ^ k"
    by (simp only: round_half_even_of_int)
  then have "round_mag f ?x = of_int (n * 2 ^ k) * pow2 (- int k)"
    by (simp add: round_mag_def u)
  also have "\<dots> = ?x * (pow2 (- int k) * 2 ^ k)" by simp
  finally show ?thesis by (simp only: inv mult_1_right)
qed

text \<open>The relative error of rounding a number that is not subnormal.\<close>

lemma round_mag_error:
  assumes "pow2 (emin f) \<le> x"
  shows "\<bar>round_mag f x - x\<bar> \<le> x * pow2 (- int (prec f))"
proof -
  let ?p = "int (prec f)" and ?u = "ulp_of f x"
  have x: "0 < x" using assms pow2_pos [of "emin f"] by linarith
  have e: "emin f \<le> ilog2 x" by (rule ilog2_ge [OF assms])
  then have u: "?u = pow2 (ilog2 x - ?p + 1)" by (simp add: ulp_of_def max_def)
  have "\<bar>of_int (round_half_even (x / ?u)) - x / ?u\<bar> \<le> 1 / 2"
    using round_half_even_bounds [of "x / ?u"] by linarith
  then have "\<bar>of_int (round_half_even (x / ?u)) - x / ?u\<bar> * ?u \<le> 1 / 2 * ?u"
    by (rule mult_right_mono) simp
  moreover have "\<bar>of_int (round_half_even (x / ?u)) - x / ?u\<bar> * ?u = \<bar>round_mag f x - x\<bar>"
  proof -
    have "\<bar>of_int (round_half_even (x / ?u)) - x / ?u\<bar> * ?u
        = \<bar>(of_int (round_half_even (x / ?u)) - x / ?u) * ?u\<bar>"
      by (simp add: abs_mult)
    also have "(of_int (round_half_even (x / ?u)) - x / ?u) * ?u = round_mag f x - x"
      by (simp add: round_mag_def left_diff_distrib)
    finally show ?thesis .
  qed
  moreover have "1 / 2 * ?u = pow2 (ilog2 x) * pow2 (- ?p)"
  proof -
    have "?u = pow2 (ilog2 x) * pow2 (- ?p) * pow2 1"
      unfolding u by (simp flip: pow2_add)
    then show ?thesis by (simp add: pow2_def)
  qed
  moreover have "pow2 (ilog2 x) * pow2 (- ?p) \<le> x * pow2 (- ?p)"
    by (rule mult_right_mono) (simp_all add: ilog2_bounds(1) [OF x])
  ultimately show ?thesis by linarith
qed

lemma round_mag_upper:
  assumes "pow2 (emin f) \<le> x"
  shows "round_mag f x \<le> x * (1 + pow2 (- int (prec f)))"
  using round_mag_error [OF assms] by (simp add: distrib_left abs_le_iff)

lemma round_mag_lower:
  assumes "pow2 (emin f) \<le> x"
  shows "x * (1 - pow2 (- int (prec f))) \<le> round_mag f x"
  using round_mag_error [OF assms] by (simp add: right_diff_distrib abs_le_iff)

lemma kmin_eval: "fp_div Binary32 (Finite 1) kMaxAcceptFactor = Finite (13421773 / 67108864)"
  by code_simp

lemma rm32_2_31: "round_mag Binary32 2147483648 = 2147483648"
  by code_simp

lemma rm32_T: "round_mag Binary32 1342177280 = 1342177280"
  by code_simp

lemma rm32_T2: "round_mag Binary32 (268435456 / (13421773 / 67108864)) = 1342177280"
  by code_simp

lemma rm32_2_28: "round_mag Binary32 268435456 = 268435456"
  by code_simp

lemma pow2_emax: "pow2 (emax f + 1) > 2 ^ 127"
  by (cases f) (simp_all add: pow2_def)

lemma fp_round_finite:
  assumes "0 \<le> m" "round_mag f m < pow2 (emax f + 1)"
  shows "fp_round f False m = Finite (round_mag f m)"
proof (cases "round_mag f m = 0")
  case True
  then show ?thesis by (simp add: fp_round_def)
next
  case False
  with round_mag_nonneg [OF assms(1), of f] have "0 < round_mag f m" by simp
  from ilog2_less [OF this assms(2)] False show ?thesis
    by (simp add: fp_round_def)
qed

lemma fp_round_not_nan [simp]: "\<not> is_nan (fp_round f neg m)"
  by (simp add: fp_round_def Let_def)

lemma round_mag_le_2_31:
  assumes "0 \<le> x" "x \<le> 2147483648"
  shows "round_mag f x \<le> 2147483648"
proof -
  have "round_mag f 2147483648 = 2147483648"
  proof (cases f)
    case Binary32
    then show ?thesis by (simp add: rm32_2_31)
  next
    case Binary64
    have "round_mag Binary64 (of_int 2147483648) = of_int 2147483648"
      by (rule round_mag_of_int) simp_all
    with Binary64 show ?thesis by simp
  qed
  with round_mag_mono [OF assms, of f] show ?thesis by simp
qed

lemma fp_round_small:
  assumes "0 \<le> x" "x \<le> 2147483648"
  shows "fp_round f False x = Finite (round_mag f x)"
proof (rule fp_round_finite [OF assms(1)])
  have "round_mag f x \<le> 2147483648" by (rule round_mag_le_2_31 [OF assms])
  also have "\<dots> < (2::rat) ^ 127" by simp
  also have "\<dots> < pow2 (emax f + 1)" by (rule pow2_emax)
  finally show "round_mag f x < pow2 (emax f + 1)" .
qed

lemma fp_mul_small:
  assumes "0 \<le> a" "0 \<le> b" "a * b \<le> 2147483648"
  shows "fp_mul f (Finite a) (Finite b) = Finite (round_mag f (a * b))"
  using fp_round_small [of "a * b" f] assms by (simp add: fp_mul_def)

lemma fp_div_small:
  assumes "0 \<le> a" "0 < b" "a / b \<le> 2147483648"
  shows "fp_div f (Finite a) (Finite b) = Finite (round_mag f (a / b))"
  using fp_round_small [of "a / b" f] assms by (simp add: fp_div_def)

lemma int_to_float_exact:
  assumes "0 \<le> i" "i < 2 ^ 24"
  shows "int_to_float i = Finite (of_int i)"
proof -
  have "round_mag Binary32 (of_int i) = of_int i"
    by (rule round_mag_of_int) (use assms in simp_all)
  moreover have "(of_int i :: rat) \<le> 2147483648"
    using assms(2) by (simp flip: of_int_numeral[where ?'a = rat] del: of_int_numeral)
  ultimately show ?thesis
    using fp_round_small [of "of_int i" Binary32] assms(1) by (simp add: int_to_float_def)
qed

lemma int_to_double_exact:
  assumes "0 \<le> i" "i < 2 ^ 53"
  shows "int_to_double i = Finite (of_int i)"
proof -
  have r: "round_mag Binary64 (of_int i) = of_int i"
    by (rule round_mag_of_int) (use assms in simp_all)
  have "round_mag Binary64 (of_int i) < pow2 (emax Binary64 + 1)"
  proof -
    have "(of_int i :: rat) < of_int (2 ^ 53)" using assms(2) by (simp only: of_int_less_iff)
    also have "\<dots> < 2 ^ 127" by simp
    also have "\<dots> < pow2 (emax Binary64 + 1)" by (rule pow2_emax)
    finally show ?thesis by (simp only: r)
  qed
  from fp_round_finite [OF _ this] show ?thesis
    using assms(1) by (simp add: int_to_double_def r)
qed

lemma int_to_float_pos:
  assumes "0 \<le> i" "i \<le> 2147483648"
  shows "int_to_float i = Finite (round_mag Binary32 (of_int i))"
proof -
  have "(of_int i :: rat) \<le> of_int 2147483648" using assms(2) by (simp only: of_int_le_iff)
  then show ?thesis
    using fp_round_small [of "of_int i" Binary32] assms(1) by (simp add: int_to_float_def)
qed

lemma roundf_nonneg:
  assumes "0 \<le> r"
  shows "roundf (Finite r) = Finite (of_int \<lfloor>r + 1 / 2\<rfloor>)"
  using assms by (simp add: round_half_away_def)

lemma float_to_int_nonneg:
  assumes "0 \<le> r" "r < 2147483648"
  shows "float_to_int (Finite r) = Inr \<lfloor>r\<rfloor>"
proof -
  have "\<lfloor>r\<rfloor> < 2147483648" using assms(2) by (simp add: floor_less_iff)
  moreover have "0 \<le> \<lfloor>r\<rfloor>" using assms(1) by simp
  ultimately show ?thesis
    using assms(1) by (simp add: trunc_toward_zero_def INT_MIN_def INT_MAX_def)
qed

lemma float_to_int_big:
  assumes "x = PlusInf \<or> (\<exists>r. x = Finite r \<and> 2147483648 \<le> r)"
  shows "float_to_int x = Inl FloatToIntOutOfRange"
proof -
  have "float_to_int (Finite r) = Inl FloatToIntOutOfRange" if "2147483648 \<le> r" for r
  proof -
    have "2147483648 \<le> \<lfloor>r\<rfloor>" using that by (simp add: le_floor_iff)
    then show ?thesis using that by (simp add: trunc_toward_zero_def INT_MAX_def)
  qed
  with assms show ?thesis by auto
qed

lemma fp_round_big:
  assumes "2147483648 \<le> m"
  shows "fp_round f False m = PlusInf \<or> (\<exists>r. fp_round f False m = Finite r \<and> 2147483648 \<le> r)"
proof -
  have "round_mag f 2147483648 \<le> round_mag f m"
    by (rule round_mag_mono) (use assms in simp_all)
  moreover have "round_mag f 2147483648 = 2147483648"
  proof (cases f)
    case Binary32
    then show ?thesis by (simp add: rm32_2_31)
  next
    case Binary64
    have "round_mag Binary64 (of_int 2147483648) = of_int 2147483648"
      by (rule round_mag_of_int) simp_all
    with Binary64 show ?thesis by simp
  qed
  ultimately have "2147483648 \<le> round_mag f m" by simp
  then show ?thesis
    by (auto simp: fp_round_def Let_def)
qed

lemma fp_mul_big:
  assumes "x = PlusInf \<or> (\<exists>r. x = Finite r \<and> 2147483648 \<le> r)" "1 \<le> b"
  shows "fp_mul f x (Finite b) = PlusInf
         \<or> (\<exists>r. fp_mul f x (Finite b) = Finite r \<and> 2147483648 \<le> r)"
  using assms(1)
proof
  assume "x = PlusInf"
  with assms(2) show ?thesis by (simp add: fp_mul_def)
next
  assume "\<exists>r. x = Finite r \<and> 2147483648 \<le> r"
  then obtain r where r: "x = Finite r" "2147483648 \<le> r" by blast
  have "2147483648 * 1 \<le> r * b"
    by (rule mult_mono) (use r assms(2) in simp_all)
  then have "2147483648 \<le> r * b" by simp
  from fp_round_big [OF this, of f] r assms(2) show ?thesis
    by (simp add: fp_mul_def)
qed

text \<open>A product of two non-negative integers in \<open>double\<close> is exact, or too big for an \<open>int\<close>.\<close>

lemma fp_mul64_ints:
  assumes "0 \<le> a" "0 \<le> b"
  shows "fp_mul Binary64 (Finite (of_int a)) (Finite (of_int b))
          = (if a * b < 2147483648 then Finite (of_int (a * b))
             else fp_round Binary64 False (of_int (a * b)))"
proof (cases "a * b < 2147483648")
  case True
  have "round_mag Binary64 (of_int (a * b)) = of_int (a * b)"
    by (rule round_mag_of_int) (use assms True in simp_all)
  moreover have "(of_int (a * b) :: rat) \<le> of_int 2147483648"
    using True by (simp only: of_int_le_iff)
  then have "(of_int a * of_int b :: rat) \<le> 2147483648" by simp
  ultimately show ?thesis
    using fp_mul_small [of "of_int a" "of_int b" Binary64] assms True by simp
next
  case False
  with assms show ?thesis by (simp add: fp_mul_def)
qed

lemma fp_mul64_ints_big:
  assumes "0 \<le> a" "0 \<le> b" "\<not> a * b < 2147483648"
  shows "fp_mul Binary64 (Finite (of_int a)) (Finite (of_int b)) = PlusInf
         \<or> (\<exists>r. fp_mul Binary64 (Finite (of_int a)) (Finite (of_int b)) = Finite r
                 \<and> 2147483648 \<le> r)"
proof -
  have "2147483648 \<le> a * b" using assms(3) by simp
  then have "(of_int 2147483648 :: rat) \<le> of_int (a * b)"
    by (simp only: of_int_le_iff)
  then have "2147483648 \<le> (of_int (a * b) :: rat)" by simp
  from fp_round_big [OF this, of Binary64] show ?thesis
    using assms by (simp add: fp_mul64_ints)
qed

lemma float_to_int_of_int:
  assumes "0 \<le> n" "n < 2147483648"
  shows "float_to_int (Finite (of_int n)) = Inr n"
proof -
  have "(of_int n :: rat) < of_int 2147483648" using assms(2) by (simp only: of_int_less_iff)
  then have "(of_int n :: rat) < 2147483648" by simp
  with float_to_int_nonneg [of "of_int n"] assms(1) show ?thesis by simp
qed

text \<open>The two products of the integer upscaling.\<close>

lemma product3_exact:
  assumes "0 \<le> c" "0 \<le> k" "1 \<le> i" "i < 2147483648"
    and "float_to_int (fp_mul Binary64 (fp_mul Binary64 (Finite (of_int c)) (Finite (of_int k)))
            (int_to_double i)) = Inr v"
  shows "v = c * k * i" "c * k * i < 2147483648"
proof -
  have i: "int_to_double i = Finite (of_int i)"
    by (rule int_to_double_exact) (use assms in simp_all)
  have ck: "c * k < 2147483648"
  proof (rule ccontr)
    assume "\<not> c * k < 2147483648"
    note big1 = fp_mul64_ints_big [OF assms(1,2) this]
    have "(1::rat) \<le> of_int i" using assms(3) by simp
    note big2 = fp_mul_big [OF big1 this, of Binary64]
    from float_to_int_big [OF big2] assms(5) i show False by simp
  qed
  then have m1: "fp_mul Binary64 (Finite (of_int c)) (Finite (of_int k)) = Finite (of_int (c * k))"
    using fp_mul64_ints [OF assms(1,2)] by simp
  have ck0: "0 \<le> c * k" using assms(1,2) by simp
  have i0: "0 \<le> i" using assms(3) by simp
  show lt: "c * k * i < 2147483648"
  proof (rule ccontr)
    assume "\<not> c * k * i < 2147483648"
    from fp_mul64_ints_big [OF ck0 i0 this]
    have "float_to_int (fp_mul Binary64 (Finite (of_int (c * k))) (Finite (of_int i)))
        = Inl FloatToIntOutOfRange"
      by (intro float_to_int_big)
    with assms(5) i m1 show False by simp
  qed
  then have m2: "fp_mul Binary64 (Finite (of_int (c * k))) (Finite (of_int i))
      = Finite (of_int (c * k * i))"
    using fp_mul64_ints [OF ck0 i0] by simp
  have "0 \<le> c * k * i" using ck0 i0 by simp
  from float_to_int_of_int [OF this lt] assms(5) show "v = c * k * i"
    by (simp only: i m1 m2) simp
qed

lemma product2_exact:
  assumes "0 \<le> k" "1 \<le> i" "i < 2147483648"
    and "float_to_int (fp_mul Binary64 (Finite (of_int k)) (int_to_double i)) = Inr v"
  shows "v = k * i" "k * i < 2147483648"
proof -
  have i: "int_to_double i = Finite (of_int i)"
    by (rule int_to_double_exact) (use assms in simp_all)
  have i0: "0 \<le> i" using assms(2) by simp
  show lt: "k * i < 2147483648"
  proof (rule ccontr)
    assume "\<not> k * i < 2147483648"
    from fp_mul64_ints_big [OF assms(1) i0 this]
    have "float_to_int (fp_mul Binary64 (Finite (of_int k)) (Finite (of_int i)))
        = Inl FloatToIntOutOfRange"
      by (intro float_to_int_big)
    with assms(4) i show False by simp
  qed
  then have m: "fp_mul Binary64 (Finite (of_int k)) (Finite (of_int i)) = Finite (of_int (k * i))"
    using fp_mul64_ints [OF assms(1) i0] by simp
  have "0 \<le> k * i" using assms(1) i0 by simp
  from float_to_int_of_int [OF this lt] assms(4) show "v = k * i"
    by (simp only: i m) simp
qed

text \<open>Powers of two, and what has been rounded once, are floating-point numbers.\<close>

lemma ilog2_pow2:
  "ilog2 (pow2 j) = j"
proof (rule ilog2_unique)
  show "pow2 j \<le> pow2 j" by simp
  have "pow2 (j + 1) = pow2 j * pow2 1" by (rule pow2_add)
  also have "\<dots> = 2 * pow2 j" by (simp add: pow2_def)
  finally show "pow2 j < pow2 (j + 1)" using pow2_pos [of j] by linarith
qed

lemma round_mag_pow2:
  assumes "emin f \<le> j"
  shows "round_mag f (pow2 j) = pow2 j"
proof -
  let ?p = "int (prec f)"
  have p1: "1 \<le> ?p" using prec_pos [of f] by simp
  have u: "ulp_of f (pow2 j) = pow2 (j - ?p + 1)"
    using assms by (simp add: ulp_of_def ilog2_pow2 max_def)
  have split: "pow2 j = pow2 (?p - 1) * pow2 (j - ?p + 1)"
    by (simp flip: pow2_add)
  have int: "pow2 (?p - 1) = of_int (2 ^ (prec f - 1))"
    using p1 by (simp add: pow2_nat nat_diff_distrib)
  have "pow2 j / ulp_of f (pow2 j) = pow2 (?p - 1)"
    unfolding u by (subst split) simp
  then have "round_half_even (pow2 j / ulp_of f (pow2 j)) = 2 ^ (prec f - 1)"
    by (simp only: int round_half_even_of_int)
  then have "round_mag f (pow2 j) = of_int (2 ^ (prec f - 1)) * pow2 (j - ?p + 1)"
    by (simp only: round_mag_def u)
  also have "\<dots> = pow2 j" by (simp only: split int)
  finally show ?thesis .
qed

lemma round_mag_idem:
  assumes "pow2 (emin f) \<le> x"
  shows "round_mag f (round_mag f x) = round_mag f x"
proof -
  let ?p = "int (prec f)" and ?y = "round_mag f x"
  have x: "0 < x" using assms pow2_pos [of "emin f"] by linarith
  have e: "emin f \<le> ilog2 x" by (rule ilog2_ge [OF assms])
  then have m: "max (ilog2 x) (emin f) = ilog2 x" by simp
  have u: "ulp_of f x = pow2 (ilog2 x - ?p + 1)" by (simp add: ulp_of_def m)
  note b = round_mag_binade [OF x, of f, unfolded m]
  have lo: "pow2 (ilog2 x) \<le> ?y" by (rule b(2) [OF e])
  have hi: "?y \<le> pow2 (ilog2 x + 1)" by (rule b(1))
  show ?thesis
  proof (cases "?y = pow2 (ilog2 x + 1)")
    case True
    have "emin f \<le> ilog2 x + 1" using e by simp
    from round_mag_pow2 [OF this] show ?thesis by (simp only: True)
  next
    case False
    with hi have "?y < pow2 (ilog2 x + 1)" by simp
    from ilog2_unique [OF lo this] have "ilog2 ?y = ilog2 x" .
    then have uy: "ulp_of f ?y = ulp_of f x" by (simp add: ulp_of_def)
    have "?y / ulp_of f x = of_int (round_half_even (x / ulp_of f x))"
      by (simp add: round_mag_def)
    then have "round_half_even (?y / ulp_of f x) = round_half_even (x / ulp_of f x)"
      by (simp only: round_half_even_of_int)
    then show ?thesis
      by (simp only: round_mag_def [of f ?y] uy) (simp only: round_mag_def)
  qed
qed

lemma round_mag_half:
  assumes "pow2 (emin f + 1) \<le> x"
  shows "round_mag f (x / 2) = round_mag f x / 2"
proof -
  let ?p = "int (prec f)"
  have x: "0 < x" using assms pow2_pos [of "emin f + 1"] by linarith
  have e: "emin f + 1 \<le> ilog2 x" by (rule ilog2_ge [OF assms])
  have two: "pow2 (j + 1) = 2 * pow2 j" for j
  proof -
    have "pow2 (j + 1) = pow2 j * pow2 1" by (rule pow2_add)
    then show ?thesis by (simp add: pow2_def)
  qed
  note b = ilog2_bounds [OF x]
  have "pow2 (ilog2 x - 1) \<le> x / 2" using b(1) two [of "ilog2 x - 1"] by simp
  moreover have "x / 2 < pow2 (ilog2 x - 1 + 1)" using b(2) two [of "ilog2 x"] by simp
  ultimately have l: "ilog2 (x / 2) = ilog2 x - 1" by (rule ilog2_unique)
  have ux: "ulp_of f x = pow2 (ilog2 x - ?p + 1)" using e by (simp add: ulp_of_def max_def)
  have "max (ilog2 x - 1) (emin f) - ?p + 1 = ilog2 x - ?p" using e by simp
  then have uh: "ulp_of f (x / 2) = pow2 (ilog2 x - ?p)" by (simp only: ulp_of_def l)
  have rel: "ulp_of f x = 2 * ulp_of f (x / 2)"
    unfolding ux uh using two [of "ilog2 x - ?p"] by simp
  have "x / 2 / ulp_of f (x / 2) = x / ulp_of f x"
    by (simp add: rel)
  then show ?thesis
    by (simp add: round_mag_def [of f "x / 2"] round_mag_def [of f x] rel)
qed

section \<open>Properties of the GeometryFitter\<close>

lemma fp_less_one_cases:
  assumes "fp_less (Finite 1) x"
  shows "x = PlusInf \<or> (\<exists>r. x = Finite r \<and> 1 < r)"
  using assms by (cases x) simp_all

lemma aspect_correct_of_int:
  "aspect_correct options = Finite (of_int (if cell_x_px options = 2 then 2 else 1))"
  by (simp add: aspect_correct_def)

lemma integer_upscale_not_fired:
  assumes "\<not> (upscale_integer options \<and> img_width < fst t \<and> img_height < snd t
            \<and> fp_less (Finite 1) (smaller_factor options img_width img_height t))"
  shows "integer_upscale options img_width img_height t = Inr t"
  using assms by (auto simp: integer_upscale_def Let_def)

lemma integer_upscale_fired:
  assumes "upscale_integer options \<and> img_width < fst t \<and> img_height < snd t
            \<and> fp_less (Finite 1) (smaller_factor options img_width img_height t)"
  shows "integer_upscale options img_width img_height t
    = (case float_to_int
             (fp_mul Binary64
                (fp_mul Binary64 (aspect_correct options)
                   (fp_floor (smaller_factor options img_width img_height t)))
                (int_to_double img_width)) of
         Inl e \<Rightarrow> Inl e
       | Inr tw \<Rightarrow>
           (case float_to_int
                   (fp_mul Binary64 (fp_floor (smaller_factor options img_width img_height t))
                      (int_to_double img_height)) of
              Inl e \<Rightarrow> Inl e
            | Inr th \<Rightarrow> Inr (tw, th)))"
  using assms by (simp add: integer_upscale_def Let_def)

lemma integer_upscale_cases:
  assumes iw: "1 \<le> img_width" "img_width \<le> INT_MAX"
    and ih: "1 \<le> img_height" "img_height \<le> INT_MAX"
    and res: "integer_upscale options img_width img_height t = Inr t'"
  shows "if upscale_integer options \<and> img_width < fst t \<and> img_height < snd t
            \<and> fp_less (Finite 1) (smaller_factor options img_width img_height t)
         then \<exists>s. smaller_factor options img_width img_height t = Finite s \<and> 1 < s
                \<and> t' = ((if cell_x_px options = 2 then 2 else 1) * \<lfloor>s\<rfloor> * img_width,
                        \<lfloor>s\<rfloor> * img_height)
         else t' = t"
proof (cases "upscale_integer options \<and> img_width < fst t \<and> img_height < snd t
            \<and> fp_less (Finite 1) (smaller_factor options img_width img_height t)")
  case False
  have "t' = t"
    using res integer_upscale_not_fired [OF False] by simp
  then show ?thesis
    unfolding if_not_P [OF False] .
next
  case True
  let ?sf = "smaller_factor options img_width img_height t"
  let ?c = "if cell_x_px options = 2 then 2 else 1 :: int"
  have iwd: "int_to_double img_width = Finite (of_int img_width)"
    by (rule int_to_double_exact) (use iw in \<open>simp_all add: INT_MAX_def\<close>)
  from True have "fp_less (Finite 1) ?sf" by simp
  from fp_less_one_cases [OF this] show ?thesis
  proof
    assume inf: "?sf = PlusInf"
    have "fp_mul Binary64 (fp_mul Binary64 (aspect_correct options) PlusInf)
            (int_to_double img_width) = PlusInf"
      using iw by (simp add: iwd fp_mul_def aspect_correct_def)
    with res inf show ?thesis
      by (simp add: integer_upscale_fired [OF True])
  next
    assume "\<exists>r. ?sf = Finite r \<and> 1 < r"
    then obtain s where s: "?sf = Finite s" "1 < s" by blast
    have k0: "0 \<le> \<lfloor>s\<rfloor>" using s(2) by simp
    have c0: "0 \<le> ?c" by simp
    from res s obtain tw th where
      tw: "float_to_int (fp_mul Binary64
              (fp_mul Binary64 (Finite (of_int ?c)) (Finite (of_int \<lfloor>s\<rfloor>)))
              (int_to_double img_width)) = Inr tw"
      and th: "float_to_int (fp_mul Binary64 (Finite (of_int \<lfloor>s\<rfloor>))
              (int_to_double img_height)) = Inr th"
      and t': "t' = (tw, th)"
      by (auto simp: integer_upscale_fired [OF True] aspect_correct_of_int
          simp del: of_int_1 of_int_numeral split: sum.splits)
    have "tw = ?c * \<lfloor>s\<rfloor> * img_width"
      by (rule product3_exact(1) [OF c0 k0 _ _ tw]) (use iw in \<open>simp_all add: INT_MAX_def\<close>)
    moreover have "th = \<lfloor>s\<rfloor> * img_height"
      by (rule product2_exact(1) [OF k0 _ _ th]) (use ih in \<open>simp_all add: INT_MAX_def\<close>)
    ultimately have "\<exists>s. ?sf = Finite s \<and> 1 < s
        \<and> t' = (?c * \<lfloor>s\<rfloor> * img_width, \<lfloor>s\<rfloor> * img_height)"
      using s t' by blast
    then show ?thesis
      unfolding if_P [OF True] .
  qed
qed

lemma rotate_options_flags [simp]:
  "upscale (rotate_options orig rot) = upscale orig"
  "upscale_integer (rotate_options orig rot) = upscale_integer orig"
  "cell_x_px (rotate_options orig rot) = cell_x_px orig"
  "cell_y_px (rotate_options orig rot) = cell_y_px orig"
  by (simp_all add: rotate_options_def)

lemma stretch_box_flags:
  assumes "stretch_box options ws = Inr options'"
  shows "upscale options' = upscale options"
    and "upscale_integer options' = upscale_integer options"
    and "cell_x_px options' = cell_x_px options"
    and "cell_y_px options' = cell_y_px options"
    and "fill_width options' = fill_width options"
    and "fill_height options' = fill_height options"
  using assms by (auto simp: stretch_box_def split: if_splits sum.splits)

lemma CalcScaleToFitDisplay_cases:
  assumes "stretch_box (rotate_options orig rot)
             (clamp_width_stretch (width_stretch (rotate_options orig rot))) = Inr options"
  shows "CalcScaleToFitDisplay img_width img_height orig rot
     = (if no_scale_needed options (width_fraction options img_width)
             (height_fraction options img_height)
        then return_unscaled options img_width img_height
        else scale_to_fit options
               (clamp_width_stretch (width_stretch (rotate_options orig rot)))
               img_width img_height)"
  using assms by (simp add: CalcScaleToFitDisplay_def Let_def)

lemma CalcScaleToFitDisplay_box:
  assumes "CalcScaleToFitDisplay img_width img_height orig rot = Inr r"
  obtains options where "stretch_box (rotate_options orig rot)
             (clamp_width_stretch (width_stretch (rotate_options orig rot))) = Inr options"
  using assms by (auto simp: CalcScaleToFitDisplay_def Let_def split: sum.splits)

lemma scale_to_fit_steps:
  assumes "scale_to_fit options ws img_width img_height = Inr r"
  obtains t0 t1 t2 where
    "scale_by_policy options (width_fraction options img_width)
       (height_fraction options img_height) img_width img_height = Inr t0"
    "restretch ws t0 = Inr t1"
    "integer_upscale options img_width img_height
       (at_least_one (quantize_to_cells options t1)) = Inr t2"
    "r = fit_result img_width img_height t2"
  using assms by (auto simp: scale_to_fit_def split: sum.splits)

lemma return_unscaled_result:
  assumes "cell_x_px options = 2 \<longrightarrow> 2 * img_width \<le> INT_MAX" "0 < img_width"
  shows "return_unscaled options img_width img_height
     = Inr (if cell_x_px options = 2
            then \<lparr> target_width = 2 * img_width, target_height = img_height,
                   needs_scaling = True \<rparr>
            else \<lparr> target_width = img_width, target_height = img_height,
                   needs_scaling = False \<rparr>)"
  using assms by (simp add: return_unscaled_def int_mul_def INT_MIN_def mult.commute)

lemma return_unscaled_inverse:
  assumes "return_unscaled options img_width img_height = Inr r"
  shows "r = (if cell_x_px options = 2
            then \<lparr> target_width = 2 * img_width, target_height = img_height,
                   needs_scaling = True \<rparr>
            else \<lparr> target_width = img_width, target_height = img_height,
                   needs_scaling = False \<rparr>)"
  using assms by (auto simp: return_unscaled_def int_mul_def mult.commute split: if_splits)

lemma scale_to_fit_result:
  assumes "1 \<le> img_width" "img_width \<le> INT_MAX" "1 \<le> img_height" "img_height \<le> INT_MAX"
    and box: "stretch_box (rotate_options orig rot)
           (clamp_width_stretch (width_stretch (rotate_options orig rot))) = Inr options"
    and scale: "\<not> no_scale_needed options (width_fraction options img_width)
              (height_fraction options img_height)"
    and res: "CalcScaleToFitDisplay img_width img_height orig rot = Inr r"
  shows "\<exists>t0 t1 t.
           scale_by_policy options (width_fraction options img_width)
             (height_fraction options img_height) img_width img_height = Inr t0
         \<and> restretch (clamp_width_stretch (width_stretch (rotate_options orig rot))) t0 = Inr t1
         \<and> t = at_least_one (quantize_to_cells options t1)
         \<and> (if upscale_integer orig \<and> img_width < fst t \<and> img_height < snd t
                \<and> fp_less (Finite 1) (smaller_factor options img_width img_height t)
             then \<exists>s. smaller_factor options img_width img_height t = Finite s \<and> 1 < s
                    \<and> target_width r = (if cell_x_px orig = 2 then 2 else 1) * \<lfloor>s\<rfloor> * img_width
                    \<and> target_height r = \<lfloor>s\<rfloor> * img_height
             else target_width r = fst t \<and> target_height r = snd t)"
proof -
  note flags = stretch_box_flags [OF box]
  from res scale have "scale_to_fit options
      (clamp_width_stretch (width_stretch (rotate_options orig rot))) img_width img_height = Inr r"
    by (simp add: CalcScaleToFitDisplay_cases [OF box])
  then obtain t0 t1 t2 where
    t0: "scale_by_policy options (width_fraction options img_width)
       (height_fraction options img_height) img_width img_height = Inr t0"
    and t1: "restretch (clamp_width_stretch (width_stretch (rotate_options orig rot))) t0 = Inr t1"
    and t2: "integer_upscale options img_width img_height
       (at_least_one (quantize_to_cells options t1)) = Inr t2"
    and r: "r = fit_result img_width img_height t2"
    by (rule scale_to_fit_steps)
  let ?t = "at_least_one (quantize_to_cells options t1)"
  note c = integer_upscale_cases [OF assms(1-4) t2]
  have "if upscale_integer orig \<and> img_width < fst ?t \<and> img_height < snd ?t
                \<and> fp_less (Finite 1) (smaller_factor options img_width img_height ?t)
             then \<exists>s. smaller_factor options img_width img_height ?t = Finite s \<and> 1 < s
                    \<and> target_width r = (if cell_x_px orig = 2 then 2 else 1) * \<lfloor>s\<rfloor> * img_width
                    \<and> target_height r = \<lfloor>s\<rfloor> * img_height
             else target_width r = fst ?t \<and> target_height r = snd ?t"
    using c by (auto simp: r fit_result_def flags split: if_splits)
  with t0 t1 show ?thesis by blast
qed

lemma at_least_one_ge: "1 \<le> fst (at_least_one t)" "1 \<le> snd (at_least_one t)"
  by (simp_all add: at_least_one_def)

lemma int_div_multiple:
  assumes "c = 1 \<or> c = 2"
  shows "(int_div x c * c) mod c = 0"
  using assms by auto

lemma quantized_width:
  assumes "cell_x_px options = 1 \<or> cell_x_px options = 2"
    and "cell_y_px options = 1 \<or> cell_y_px options = 2"
  shows "fst (at_least_one (quantize_to_cells options t)) mod cell_x_px options = 0
         \<or> fst (at_least_one (quantize_to_cells options t)) = 1"
  using assms by (auto simp: at_least_one_def quantize_to_cells_def)

lemma quantized_height:
  assumes "cell_x_px options = 1 \<or> cell_x_px options = 2"
    and "cell_y_px options = 1 \<or> cell_y_px options = 2"
  shows "snd (at_least_one (quantize_to_cells options t)) mod cell_y_px options = 0
         \<or> snd (at_least_one (quantize_to_cells options t)) = 1"
  using assms by (auto simp: at_least_one_def quantize_to_cells_def)

lemma result_at_least_one:
  assumes dims: "1 \<le> img_width" "img_width \<le> INT_MAX" "1 \<le> img_height" "img_height \<le> INT_MAX"
    and res: "CalcScaleToFitDisplay img_width img_height orig rot = Inr r"
  shows "1 \<le> target_width r \<and> 1 \<le> target_height r"
proof -
  from res obtain options where box: "stretch_box (rotate_options orig rot)
             (clamp_width_stretch (width_stretch (rotate_options orig rot))) = Inr options"
    by (rule CalcScaleToFitDisplay_box)
  show ?thesis
  proof (cases "no_scale_needed options (width_fraction options img_width)
              (height_fraction options img_height)")
    case True
    from res True have "return_unscaled options img_width img_height = Inr r"
      by (simp add: CalcScaleToFitDisplay_cases [OF box])
    from return_unscaled_inverse [OF this] dims show ?thesis
      by (auto split: if_splits)
  next
    case False
    from scale_to_fit_result [OF dims box False res]
    obtain t0 t1 t where t: "t = at_least_one (quantize_to_cells options t1)"
      and c: "if upscale_integer orig \<and> img_width < fst t \<and> img_height < snd t
                \<and> fp_less (Finite 1) (smaller_factor options img_width img_height t)
             then \<exists>s. smaller_factor options img_width img_height t = Finite s \<and> 1 < s
                    \<and> target_width r = (if cell_x_px orig = 2 then 2 else 1) * \<lfloor>s\<rfloor> * img_width
                    \<and> target_height r = \<lfloor>s\<rfloor> * img_height
             else target_width r = fst t \<and> target_height r = snd t"
      by blast
    show ?thesis
    proof (cases "upscale_integer orig \<and> img_width < fst t \<and> img_height < snd t
                \<and> fp_less (Finite 1) (smaller_factor options img_width img_height t)")
      case False
      with c at_least_one_ge [of "quantize_to_cells options t1"] t show ?thesis
        by auto
    next
      case True
      with c have "\<exists>s. smaller_factor options img_width img_height t = Finite s \<and> 1 < s
                    \<and> target_width r = (if cell_x_px orig = 2 then 2 else 1) * \<lfloor>s\<rfloor> * img_width
                    \<and> target_height r = \<lfloor>s\<rfloor> * img_height"
        by (simp only: if_True)
      then obtain s where "smaller_factor options img_width img_height t = Finite s"
        and s: "1 < s"
        and tw: "target_width r = (if cell_x_px orig = 2 then 2 else 1) * \<lfloor>s\<rfloor> * img_width"
        and th: "target_height r = \<lfloor>s\<rfloor> * img_height"
        by (elim exE conjE)
      have k: "1 \<le> \<lfloor>s\<rfloor>" using s by (simp add: le_floor_iff)
      have "1 * 1 \<le> \<lfloor>s\<rfloor> * img_height"
        by (rule mult_mono) (use k dims in simp_all)
      moreover have "1 * 1 \<le> \<lfloor>s\<rfloor> * img_width"
        by (rule mult_mono) (use k dims in simp_all)
      then have "1 \<le> (if cell_x_px orig = 2 then 2 else 1) * (\<lfloor>s\<rfloor> * img_width)"
        by auto
      ultimately show ?thesis
        by (simp add: tw th mult.assoc)
    qed
  qed
qed

lemma min_stretch_eval: "fp_div Binary32 (Finite 1) kMaxAcceptFactor = Finite min_stretch"
  unfolding min_stretch_def by (rule kmin_eval)

lemma min_stretch_bounds: "0 < min_stretch" "min_stretch \<le> 1" "min_stretch \<le> 5"
  by (simp_all add: min_stretch_def)

lemma fp_div_one_not_nan: "\<not> is_nan ws \<Longrightarrow> \<not> is_nan (fp_div f (Finite 1) ws)"
  by (cases ws) (simp_all add: fp_div_def)

lemma rotate_options_not_nan:
  "\<not> is_nan (width_stretch orig) \<Longrightarrow> \<not> is_nan (width_stretch (rotate_options orig rot))"
  by (simp add: rotate_options_def fp_div_one_not_nan)

lemma clamp_width_stretch_range:
  assumes "\<not> is_nan ws"
  shows "\<exists>s. clamp_width_stretch ws = Finite s \<and> min_stretch \<le> s \<and> s \<le> 5"
proof -
  have k: "kMaxAcceptFactor = Finite 5" by (simp add: kMaxAcceptFactor_def)
  note m = min_stretch_eval [unfolded k] min_stretch_bounds
  show ?thesis
    using assms m
    by (cases ws) (auto simp: clamp_width_stretch_def k Let_def)
qed

lemma rm32_N: "round_mag Binary32 16384 = 16384"
  by code_simp

lemma rm32_1: "round_mag f 1 = 1"
  using round_mag_of_int [of 1 f] by (cases f) simp_all

lemma rm32_half: "round_mag Binary32 (1 / 2) = 1 / 2"
  by code_simp

text \<open>A quotient or product that does not exceed a small integer \<open>n\<close> rounds to at most \<open>n\<close>.\<close>

lemma round_mag_le_int:
  assumes "0 \<le> x" "x \<le> of_int n" "n < 2 ^ prec f"
  shows "round_mag f x \<le> of_int n"
proof -
  have "0 \<le> n" using assms(1,2) by (simp add: order_trans [THEN of_int_0_le_iff [THEN iffD1]])
  then have "round_mag f (of_int n) = of_int n"
    using assms(3) by (rule round_mag_of_int)
  with round_mag_mono [OF assms(1,2), of f] show ?thesis by simp
qed

lemma floor_round_mag_le_int:
  assumes "0 \<le> x" "x \<le> of_int n" "n < 2 ^ prec f"
  shows "0 \<le> \<lfloor>round_mag f x\<rfloor>" "\<lfloor>round_mag f x\<rfloor> \<le> n"
proof -
  show "0 \<le> \<lfloor>round_mag f x\<rfloor>" using round_mag_nonneg [OF assms(1), of f] by simp
  have "round_mag f x \<le> of_int n" by (rule round_mag_le_int [OF assms])
  then show "\<lfloor>round_mag f x\<rfloor> \<le> n" by (simp add: floor_le_iff)
qed

lemma int_div_assign_float_eval:
  assumes "0 \<le> i" "i < 2 ^ 24" "1 \<le> s"
  shows "int_div_assign_float i (Finite s) = Inr \<lfloor>round_mag Binary32 (of_int i / s)\<rfloor>"
    and "0 \<le> \<lfloor>round_mag Binary32 (of_int i / s)\<rfloor>"
    and "\<lfloor>round_mag Binary32 (of_int i / s)\<rfloor> \<le> i"
proof -
  let ?q = "of_int i / s :: rat"
  have q0: "0 \<le> ?q" using assms by simp
  have qi: "?q \<le> of_int i"
    using assms by (simp add: divide_le_eq mult_left_mono [of 1 s "of_int i", simplified])
  have i31: "(of_int i :: rat) \<le> 2147483648"
  proof -
    have "(of_int i :: rat) \<le> of_int 2147483648" using assms(2) by (simp only: of_int_le_iff) simp
    then show ?thesis by simp
  qed
  have d: "fp_div Binary32 (int_to_float i) (Finite s) = Finite (round_mag Binary32 ?q)"
    using fp_div_small [of "of_int i" s Binary32] assms qi i31
    by (simp add: int_to_float_exact)
  have p: "i < 2 ^ prec Binary32" using assms(2) by simp
  note fl = floor_round_mag_le_int [OF q0 qi p]
  show "0 \<le> \<lfloor>round_mag Binary32 ?q\<rfloor>" "\<lfloor>round_mag Binary32 ?q\<rfloor> \<le> i" by (rule fl)+
  have "round_mag Binary32 ?q \<le> of_int i" by (rule round_mag_le_int [OF q0 qi p])
  also have "(of_int i :: rat) < of_int 2147483648" using assms(2) by (simp only: of_int_less_iff) simp
  finally have "round_mag Binary32 ?q < 2147483648" by simp
  from float_to_int_nonneg [OF round_mag_nonneg [OF q0] this]
  show "int_div_assign_float i (Finite s) = Inr \<lfloor>round_mag Binary32 ?q\<rfloor>"
    by (simp add: int_div_assign_float_def d)
qed

lemma int_mul_assign_float_eval:
  assumes "0 \<le> i" "i < 2 ^ 24" "0 \<le> s" "s \<le> 1"
  shows "int_mul_assign_float i (Finite s) = Inr \<lfloor>round_mag Binary32 (of_int i * s)\<rfloor>"
    and "0 \<le> \<lfloor>round_mag Binary32 (of_int i * s)\<rfloor>"
    and "\<lfloor>round_mag Binary32 (of_int i * s)\<rfloor> \<le> i"
proof -
  let ?q = "of_int i * s :: rat"
  have q0: "0 \<le> ?q" using assms by simp
  have qi: "?q \<le> of_int i"
    using assms mult_left_mono [of s 1 "of_int i"] by simp
  have i31: "(of_int i :: rat) \<le> 2147483648"
  proof -
    have "(of_int i :: rat) \<le> of_int 2147483648" using assms(2) by (simp only: of_int_le_iff) simp
    then show ?thesis by simp
  qed
  have d: "fp_mul Binary32 (int_to_float i) (Finite s) = Finite (round_mag Binary32 ?q)"
    using fp_mul_small [of "of_int i" s Binary32] assms qi i31
    by (simp add: int_to_float_exact)
  have p: "i < 2 ^ prec Binary32" using assms(2) by simp
  note fl = floor_round_mag_le_int [OF q0 qi p]
  show "0 \<le> \<lfloor>round_mag Binary32 ?q\<rfloor>" "\<lfloor>round_mag Binary32 ?q\<rfloor> \<le> i" by (rule fl)+
  have "round_mag Binary32 ?q \<le> of_int i" by (rule round_mag_le_int [OF q0 qi p])
  also have "(of_int i :: rat) < of_int 2147483648" using assms(2) by (simp only: of_int_less_iff) simp
  finally have "round_mag Binary32 ?q < 2147483648" by simp
  from float_to_int_nonneg [OF round_mag_nonneg [OF q0] this]
  show "int_mul_assign_float i (Finite s) = Inr \<lfloor>round_mag Binary32 ?q\<rfloor>"
    by (simp add: int_mul_assign_float_def d)
qed

lemma stretch_box_defined:
  assumes w: "1 \<le> width options" "width options \<le> 16384"
    and h: "1 \<le> height options" "height options \<le> 16384"
    and s: "min_stretch \<le> s" "s \<le> 5"
  shows "\<exists>w' h'. stretch_box options (Finite s) = Inr (options \<lparr> width := w', height := h' \<rparr>)
           \<and> 0 \<le> w' \<and> w' \<le> width options \<and> 0 \<le> h' \<and> h' \<le> height options
           \<and> (1 < s \<longrightarrow> w' = \<lfloor>round_mag Binary32 (of_int (width options) / s)\<rfloor>
                        \<and> h' = height options)
           \<and> (\<not> 1 < s \<longrightarrow> w' = width options
                        \<and> h' = \<lfloor>round_mag Binary32 (of_int (height options) * s)\<rfloor>)"
proof (cases "1 < s")
  case True
  have "0 \<le> width options" "width options < 2 ^ 24" "1 \<le> s"
    using w True by simp_all
  note e = int_div_assign_float_eval [OF this]
  have "stretch_box options (Finite s)
      = Inr (options \<lparr> width := \<lfloor>round_mag Binary32 (of_int (width options) / s)\<rfloor>,
                       height := height options \<rparr>)"
    using True by (simp add: stretch_box_def e(1))
  with e(2,3) h True show ?thesis by fastforce
next
  case False
  have "0 \<le> height options" "height options < 2 ^ 24" "0 \<le> s" "s \<le> 1"
    using h s False min_stretch_bounds by simp_all
  note e = int_mul_assign_float_eval [OF this]
  have "stretch_box options (Finite s)
      = Inr (options \<lparr> width := width options,
                       height := \<lfloor>round_mag Binary32 (of_int (height options) * s)\<rfloor> \<rparr>)"
    using False by (simp add: stretch_box_def e(1))
  with e(2,3) w False show ?thesis by fastforce
qed

lemma fraction_eval:
  assumes "0 \<le> a" "a \<le> 16384" "1 \<le> b" "b \<le> 16384"
  shows "fp_div Binary32 (int_to_float a) (int_to_float b)
           = Finite (round_mag Binary32 (of_int a / of_int b))"
    and "0 \<le> round_mag Binary32 (of_int a / of_int b)"
    and "round_mag Binary32 (of_int a / of_int b) \<le> of_int a"
proof -
  let ?q = "of_int a / of_int b :: rat"
  have b1: "(1::rat) \<le> of_int b" using assms(3) by simp
  have q0: "0 \<le> ?q" using assms by simp
  have qa: "?q \<le> of_int a"
    using assms(1) b1 by (simp add: divide_le_eq mult_left_mono [of 1 "of_int b" "of_int a", simplified])
  have a31: "(of_int a :: rat) \<le> 2147483648"
  proof -
    have "a \<le> 2147483648" using assms(2) by simp
    then have "(of_int a :: rat) \<le> of_int 2147483648" by (simp only: of_int_le_iff)
    then show ?thesis by simp
  qed
  show "fp_div Binary32 (int_to_float a) (int_to_float b) = Finite (round_mag Binary32 ?q)"
    using fp_div_small [of "of_int a" "of_int b" Binary32] assms qa a31
    by (simp add: int_to_float_exact)
  show "0 \<le> round_mag Binary32 ?q" by (rule round_mag_nonneg [OF q0])
  have p: "a < 2 ^ prec Binary32" using assms(2) by simp
  show "round_mag Binary32 ?q \<le> of_int a"
    by (rule round_mag_le_int [OF q0 qa p])
qed

lemma scaled_eval:
  assumes "0 \<le> x" "x \<le> 16384" "1 \<le> d" "d \<le> 16384"
  shows "scaled (Finite x) d = Inr \<lfloor>round_mag Binary32 (x * of_int d) + 1 / 2\<rfloor>"
    and "0 \<le> \<lfloor>round_mag Binary32 (x * of_int d) + 1 / 2\<rfloor>"
    and "\<lfloor>round_mag Binary32 (x * of_int d) + 1 / 2\<rfloor> \<le> 268435456"
proof -
  let ?p = "x * of_int d :: rat" and ?r = "round_mag Binary32 (x * of_int d)"
  have d0: "(0::rat) \<le> of_int d" using assms(3) by simp
  have dN: "(of_int d :: rat) \<le> 16384"
  proof -
    have "(of_int d :: rat) \<le> of_int 16384" using assms(4) by (simp only: of_int_le_iff)
    then show ?thesis by simp
  qed
  have p0: "0 \<le> ?p" using assms(1) d0 by simp
  have "?p \<le> 16384 * 16384" by (rule mult_mono) (use assms dN d0 in simp_all)
  then have pN: "?p \<le> 268435456" by simp
  have r0: "0 \<le> ?r" by (rule round_mag_nonneg [OF p0])
  have rN: "?r \<le> 268435456"
    using round_mag_mono [OF p0 pN, of Binary32] by (simp add: rm32_2_28)
  have m: "fp_mul Binary32 (Finite x) (int_to_float d) = Finite ?r"
    using fp_mul_small [of x "of_int d" Binary32] assms d0 pN
    by (simp add: int_to_float_exact)
  show n0: "0 \<le> \<lfloor>?r + 1 / 2\<rfloor>" using r0 by simp
  show nN: "\<lfloor>?r + 1 / 2\<rfloor> \<le> 268435456" using rN by (simp add: floor_le_iff)
  have "float_to_int (Finite (of_int \<lfloor>?r + 1 / 2\<rfloor>)) = Inr \<lfloor>?r + 1 / 2\<rfloor>"
    by (rule float_to_int_of_int) (use n0 nN in simp_all)
  then show "scaled (Finite x) d = Inr \<lfloor>?r + 1 / 2\<rfloor>"
    by (simp only: scaled_def m roundf_nonneg [OF r0])
qed

lemma max_fraction:
  "(if fp_less (Finite b) (Finite a) then Finite a else Finite b) = Finite (max a b)"
  by (simp add: max_def)

lemma min_fraction:
  "(if fp_less (Finite a) (Finite b) then Finite a else Finite b) = Finite (min a b)"
  by (simp add: min_def)

lemma scale_by_policy_defined:
  assumes o: "0 \<le> width options" "width options \<le> 16384"
             "0 \<le> height options" "height options \<le> 16384"
    and a: "0 \<le> a" "a \<le> 16384" and b: "0 \<le> b" "b \<le> 16384"
    and d: "1 \<le> img_width" "img_width \<le> 16384" "1 \<le> img_height" "img_height \<le> 16384"
  shows "\<exists>t0. scale_by_policy options (Finite a) (Finite b) img_width img_height = Inr t0
           \<and> 0 \<le> fst t0 \<and> fst t0 \<le> 268435456 \<and> 0 \<le> snd t0 \<and> snd t0 \<le> 268435456"
proof -
  have mx: "0 \<le> max a b" "max a b \<le> 16384" and mn: "0 \<le> min a b" "min a b \<le> 16384"
    using a b by simp_all
  note s_a_h = scaled_eval [OF a d(3,4)]
  note s_b_w = scaled_eval [OF b d(1,2)]
  note s_mx_w = scaled_eval [OF mx d(1,2)]
  note s_mx_h = scaled_eval [OF mx d(3,4)]
  note s_mn_w = scaled_eval [OF mn d(1,2)]
  note s_mn_h = scaled_eval [OF mn d(3,4)]
  consider (both) "fill_width options \<and> fill_height options"
    | (fh) "\<not> (fill_width options \<and> fill_height options)" "fill_height options"
    | (fw) "\<not> (fill_width options \<and> fill_height options)" "\<not> fill_height options"
        "fill_width options"
    | (none) "\<not> fill_height options" "\<not> fill_width options"
    by blast
  then show ?thesis
  proof cases
    case both
    then have "scale_by_policy options (Finite a) (Finite b) img_width img_height
        = Inr (\<lfloor>round_mag Binary32 (max a b * of_int img_width) + 1 / 2\<rfloor>,
               \<lfloor>round_mag Binary32 (max a b * of_int img_height) + 1 / 2\<rfloor>)"
      by (simp only: scale_by_policy_def max_fraction Let_def s_mx_w(1) s_mx_h(1)) simp
    with s_mx_w(2,3) s_mx_h(2,3) show ?thesis by simp
  next
    case fh
    then have "scale_by_policy options (Finite a) (Finite b) img_width img_height
        = Inr (\<lfloor>round_mag Binary32 (b * of_int img_width) + 1 / 2\<rfloor>, height options)"
      by (simp only: scale_by_policy_def s_b_w(1)) simp
    with s_b_w(2,3) o show ?thesis by simp
  next
    case fw
    then have "scale_by_policy options (Finite a) (Finite b) img_width img_height
        = Inr (width options, \<lfloor>round_mag Binary32 (a * of_int img_height) + 1 / 2\<rfloor>)"
      by (simp only: scale_by_policy_def s_a_h(1)) simp
    with s_a_h(2,3) o show ?thesis by simp
  next
    case none
    then have "scale_by_policy options (Finite a) (Finite b) img_width img_height
        = Inr (\<lfloor>round_mag Binary32 (min a b * of_int img_width) + 1 / 2\<rfloor>,
               \<lfloor>round_mag Binary32 (min a b * of_int img_height) + 1 / 2\<rfloor>)"
      by (simp only: scale_by_policy_def min_fraction Let_def s_mn_w(1) s_mn_h(1)) simp
    with s_mn_w(2,3) s_mn_h(2,3) show ?thesis by simp
  qed
qed

lemma rat_of_int_le_numeral:
  "i \<le> numeral n \<Longrightarrow> (of_int i :: rat) \<le> numeral n"
  by (metis of_int_le_iff of_int_numeral)

lemma int_to_float_range:
  assumes "0 \<le> i" "i \<le> 268435456"
  shows "int_to_float i = Finite (round_mag Binary32 (of_int i))"
    and "0 \<le> round_mag Binary32 (of_int i)"
    and "round_mag Binary32 (of_int i) \<le> 268435456"
proof -
  show "int_to_float i = Finite (round_mag Binary32 (of_int i))"
    by (rule int_to_float_pos) (use assms in simp_all)
  have i0: "(0::rat) \<le> of_int i" using assms(1) by simp
  show "0 \<le> round_mag Binary32 (of_int i)" by (rule round_mag_nonneg [OF i0])
  have "(of_int i :: rat) \<le> 268435456" by (rule rat_of_int_le_numeral [OF assms(2)])
  from round_mag_mono [OF i0 this, of Binary32]
  show "round_mag Binary32 (of_int i) \<le> 268435456" by (simp add: rm32_2_28)
qed

lemma restretch_defined:
  assumes t: "0 \<le> fst t0" "fst t0 \<le> 268435456" "0 \<le> snd t0" "snd t0 \<le> 268435456"
    and s: "min_stretch \<le> s" "s \<le> 5"
  shows "\<exists>t1. restretch (Finite s) t0 = Inr t1
           \<and> 0 \<le> fst t1 \<and> fst t1 \<le> 1342177280 \<and> 0 \<le> snd t1 \<and> snd t1 \<le> 1342177280"
proof (cases "1 < s")
  case True
  note i = int_to_float_range [OF t(1,2)]
  let ?a = "round_mag Binary32 (of_int (fst t0))"
  have p0: "0 \<le> ?a * s" using i(2) True by simp
  have "?a * s \<le> 268435456 * 5" by (rule mult_mono) (use i s True in simp_all)
  then have pT: "?a * s \<le> 1342177280" by simp
  have m: "fp_mul Binary32 (Finite ?a) (Finite s) = Finite (round_mag Binary32 (?a * s))"
    by (rule fp_mul_small) (use i(2) True pT in simp_all)
  have r0: "0 \<le> round_mag Binary32 (?a * s)" by (rule round_mag_nonneg [OF p0])
  have rT: "round_mag Binary32 (?a * s) \<le> 1342177280"
    using round_mag_mono [OF p0 pT, of Binary32] by (simp add: rm32_T)
  then have "round_mag Binary32 (?a * s) < 2147483648" by simp
  from float_to_int_nonneg [OF r0 this]
  have "int_mul_assign_float (fst t0) (Finite s) = Inr \<lfloor>round_mag Binary32 (?a * s)\<rfloor>"
    by (simp only: int_mul_assign_float_def i(1) m)
  then have "restretch (Finite s) t0 = Inr (\<lfloor>round_mag Binary32 (?a * s)\<rfloor>, snd t0)"
    using True by (simp add: restretch_def)
  moreover have "0 \<le> \<lfloor>round_mag Binary32 (?a * s)\<rfloor>" using r0 by simp
  moreover have "\<lfloor>round_mag Binary32 (?a * s)\<rfloor> \<le> 1342177280"
    using rT by (simp add: floor_le_iff)
  ultimately show ?thesis using t by simp
next
  case False
  note i = int_to_float_range [OF t(3,4)]
  let ?a = "round_mag Binary32 (of_int (snd t0))"
  have s0: "0 < s" using s(1) min_stretch_bounds(1) by linarith
  have p0: "0 \<le> ?a / s" using i(2) s0 by simp
  have "?a / s \<le> 268435456 / min_stretch"
    by (rule frac_le) (use i s min_stretch_bounds in simp_all)
  then have pT: "?a / s \<le> 268435456 / (13421773 / 67108864)"
    by (simp only: min_stretch_def)
  have "268435456 / (13421773 / 67108864) \<le> (2147483648::rat)" by simp
  with pT have p31: "?a / s \<le> 2147483648" by (rule order_trans)
  have d: "fp_div Binary32 (Finite ?a) (Finite s) = Finite (round_mag Binary32 (?a / s))"
    by (rule fp_div_small [OF i(2) s0 p31])
  have r0: "0 \<le> round_mag Binary32 (?a / s)" by (rule round_mag_nonneg [OF p0])
  have rT: "round_mag Binary32 (?a / s) \<le> 1342177280"
    using round_mag_mono [OF p0 pT, of Binary32] by (simp only: rm32_T2)
  then have "round_mag Binary32 (?a / s) < 2147483648" by simp
  from float_to_int_nonneg [OF r0 this]
  have "int_div_assign_float (snd t0) (Finite s) = Inr \<lfloor>round_mag Binary32 (?a / s)\<rfloor>"
    by (simp only: int_div_assign_float_def i(1) d)
  then have "restretch (Finite s) t0 = Inr (fst t0, \<lfloor>round_mag Binary32 (?a / s)\<rfloor>)"
    using False by (simp add: restretch_def)
  moreover have "0 \<le> \<lfloor>round_mag Binary32 (?a / s)\<rfloor>" using r0 by simp
  moreover have "\<lfloor>round_mag Binary32 (?a / s)\<rfloor> \<le> 1342177280"
    using rT by (simp add: floor_le_iff)
  ultimately show ?thesis using t by simp
qed

lemma int_div_small_cell:
  assumes "0 \<le> x" "0 < c" "c \<le> 2"
  shows "0 \<le> int_div x c * c" "int_div x c * c \<le> x"
proof -
  have c: "c = 1 \<or> c = 2" using assms by auto
  have "int_div x c = x div c"
    using assms c by (auto simp: int_div_def sgn_if)
  with c assms(1) show "0 \<le> int_div x c * c" "int_div x c * c \<le> x"
    by auto
qed

lemma quantized_range:
  assumes "0 \<le> fst t1" "fst t1 \<le> n" "0 \<le> snd t1" "snd t1 \<le> n" "1 \<le> n"
  shows "1 \<le> fst (at_least_one (quantize_to_cells options t1))"
    and "fst (at_least_one (quantize_to_cells options t1)) \<le> n"
    and "1 \<le> snd (at_least_one (quantize_to_cells options t1))"
    and "snd (at_least_one (quantize_to_cells options t1)) \<le> n"
proof -
  have q: "fst (quantize_to_cells options t1) \<le> n" "snd (quantize_to_cells options t1) \<le> n"
    using assms int_div_small_cell [of "fst t1" "cell_x_px options"]
      int_div_small_cell [of "snd t1" "cell_y_px options"]
    by (auto simp: quantize_to_cells_def)
  then show "fst (at_least_one (quantize_to_cells options t1)) \<le> n"
    "snd (at_least_one (quantize_to_cells options t1)) \<le> n"
    using assms(5) by (auto simp: at_least_one_def)
  show "1 \<le> fst (at_least_one (quantize_to_cells options t1))"
    "1 \<le> snd (at_least_one (quantize_to_cells options t1))"
    by (rule at_least_one_ge)+
qed

lemma rm32_rel:
  assumes "1 / 32768 \<le> x"
  shows "round_mag Binary32 x \<le> x * (16777217 / 16777216)"
proof -
  have "pow2 (emin Binary32) \<le> 1 / 32768" by (simp add: pow2_def)
  with assms have "pow2 (emin Binary32) \<le> x" by linarith
  from round_mag_upper [OF this] show ?thesis by (simp add: pow2_def)
qed

lemma round_mag_ge_one: "1 \<le> x \<Longrightarrow> 1 \<le> round_mag f x"
  using round_mag_mono [of 1 x f] by (simp add: rm32_1)

lemma round_mag_ge_half: "1 / 2 \<le> x \<Longrightarrow> 1 / 2 \<le> round_mag Binary32 x"
  using round_mag_mono [of "1 / 2" x Binary32] by (simp add: rm32_half)

text \<open>
  The quotient \<open>target / divisor / img\<close> in \<open>float\<close>, for a target of at most
  1342177280: multiplied back it stays below \<open>2\<^sup>3\<^sup>1\<close>.
\<close>

lemma factor_bound:
  assumes t: "1 \<le> tw" "tw \<le> 1342177280" and i: "1 \<le> iw" "iw \<le> 16384"
    and c: "c = 1 \<or> c = 2"
  shows "\<exists>w. fp_div Binary32
              (fp_div Binary32 (fp_mul Binary32 (Finite 1) (int_to_float tw)) (Finite c))
              (int_to_float iw) = Finite w
          \<and> 0 \<le> w \<and> c * (w * of_int iw) < 2147483648"
proof -
  let ?k = "16777217 / 16777216 :: rat"
  let ?a1 = "round_mag Binary32 (of_int tw)"
  let ?a2 = "round_mag Binary32 (1 * ?a1)"
  let ?a3 = "round_mag Binary32 (?a2 / c)"
  let ?w = "round_mag Binary32 (?a3 / of_int iw)"
  have tw1: "(1::rat) \<le> of_int tw" using t(1) by simp
  have twT: "(of_int tw :: rat) \<le> 1342177280" by (rule rat_of_int_le_numeral [OF t(2)])
  have iw1: "(1::rat) \<le> of_int iw" using i(1) by simp
  have iwN: "(of_int iw :: rat) \<le> 16384" by (rule rat_of_int_le_numeral [OF i(2)])
  have c0: "0 < c" "1 \<le> c" "c \<le> 2" using c by auto
  \<comment> \<open>the conversion of the target\<close>
  have e1: "int_to_float tw = Finite ?a1"
    by (rule int_to_float_pos) (use t in simp_all)
  have a1_lo: "1 \<le> ?a1" by (rule round_mag_ge_one [OF tw1])
  have "1 / 32768 \<le> (of_int tw :: rat)" using tw1 by linarith
  then have a1_hi: "?a1 \<le> of_int tw * ?k" by (rule rm32_rel)
  have a1_31: "?a1 \<le> 2147483648" by (rule round_mag_le_2_31) (use tw1 twT in simp_all)
  \<comment> \<open>times \<open>1.0f\<close>\<close>
  have e2: "fp_mul Binary32 (Finite 1) (Finite ?a1) = Finite ?a2"
    by (rule fp_mul_small) (use a1_lo a1_31 in simp_all)
  have a2_lo: "1 \<le> ?a2" by (rule round_mag_ge_one) (use a1_lo in simp)
  have "1 / 32768 \<le> 1 * ?a1" using a1_lo by linarith
  then have "?a2 \<le> 1 * ?a1 * ?k" by (rule rm32_rel)
  then have a2_hi: "?a2 \<le> ?a1 * ?k" by simp
  have a2_31: "?a2 \<le> 2147483648" by (rule round_mag_le_2_31) (use a1_lo a1_31 in simp_all)
  \<comment> \<open>by \<open>aspect_correct\<close>\<close>
  have q3: "?a2 / c \<le> ?a2" "1 / 2 \<le> ?a2 / c"
    using c a2_lo by auto
  have e3: "fp_div Binary32 (Finite ?a2) (Finite c) = Finite ?a3"
    by (rule fp_div_small) (use a2_lo c0 q3 a2_31 in simp_all)
  have a3_lo: "1 / 2 \<le> ?a3" by (rule round_mag_ge_half [OF q3(2)])
  have "1 / 32768 \<le> ?a2 / c" using q3(2) by linarith
  then have a3_hi: "?a3 \<le> ?a2 / c * ?k" by (rule rm32_rel)
  have a3_31: "?a3 \<le> 2147483648"
    by (rule round_mag_le_2_31) (use q3 a2_lo a2_31 c0 in simp_all)
  \<comment> \<open>by the image dimension\<close>
  have q4: "?a3 / of_int iw \<le> ?a3"
    using a3_lo iw1 by (simp add: divide_le_eq mult_left_mono [of 1 "of_int iw" ?a3, simplified])
  have q4_lo: "1 / 32768 \<le> ?a3 / of_int iw"
  proof -
    have "1 / 2 / 16384 \<le> ?a3 / of_int iw"
      by (rule frac_le) (use a3_lo iw1 iwN in simp_all)
    then show ?thesis by simp
  qed
  have e4: "fp_div Binary32 (Finite ?a3) (int_to_float iw) = Finite ?w"
    using fp_div_small [of ?a3 "of_int iw" Binary32] a3_lo iw1 q4 a3_31 i
    by (simp add: int_to_float_exact)
  have w0: "0 \<le> ?w" by (rule round_mag_nonneg) (use a3_lo iw1 in simp)
  have "?w \<le> ?a3 / of_int iw * ?k" by (rule rm32_rel [OF q4_lo])
  then have "?w * of_int iw \<le> ?a3 / of_int iw * ?k * of_int iw"
    by (rule mult_right_mono) (use iw1 in simp)
  also have "\<dots> = ?a3 * ?k" using iw1 by simp
  finally have w_hi: "?w * of_int iw \<le> ?a3 * ?k" .
  have "c * (?w * of_int iw) < 2147483648"
  proof -
    define X A1 A2 A3 W where "X = (of_int tw :: rat)" and "A1 = ?a1" and "A2 = ?a2"
      and "A3 = ?a3" and "W = ?w * of_int iw"
    have h: "X \<le> 1342177280" "A1 \<le> X * ?k" "A2 \<le> A1 * ?k" "A3 \<le> A2 / c * ?k"
      "W \<le> A3 * ?k"
      using twT a1_hi a2_hi a3_hi w_hi by (simp_all only: X_def A1_def A2_def A3_def W_def)
    have "c * W < 2147483648"
      using c
    proof
      assume "c = 1"
      with h show ?thesis by simp
    next
      assume "c = 2"
      with h show ?thesis by simp
    qed
    then show ?thesis by (simp only: W_def)
  qed
  with e1 e2 e3 e4 w0 show ?thesis by simp
qed

lemma factor_bound_height:
  assumes t: "1 \<le> th" "th \<le> 1342177280" and i: "1 \<le> ih" "ih \<le> 16384"
  shows "\<exists>h. fp_div Binary32 (fp_mul Binary32 (Finite 1) (int_to_float th)) (int_to_float ih)
               = Finite h
          \<and> 0 \<le> h \<and> h * of_int ih < 2147483648"
proof -
  let ?k = "16777217 / 16777216 :: rat"
  let ?a1 = "round_mag Binary32 (of_int th)"
  let ?a2 = "round_mag Binary32 (1 * ?a1)"
  let ?h = "round_mag Binary32 (?a2 / of_int ih)"
  have th1: "(1::rat) \<le> of_int th" using t(1) by simp
  have thT: "(of_int th :: rat) \<le> 1342177280" by (rule rat_of_int_le_numeral [OF t(2)])
  have ih1: "(1::rat) \<le> of_int ih" using i(1) by simp
  have ihN: "(of_int ih :: rat) \<le> 16384" by (rule rat_of_int_le_numeral [OF i(2)])
  have e1: "int_to_float th = Finite ?a1"
    by (rule int_to_float_pos) (use t in simp_all)
  have a1_lo: "1 \<le> ?a1" by (rule round_mag_ge_one [OF th1])
  have "1 / 32768 \<le> (of_int th :: rat)" using th1 by linarith
  then have a1_hi: "?a1 \<le> of_int th * ?k" by (rule rm32_rel)
  have a1_31: "?a1 \<le> 2147483648" by (rule round_mag_le_2_31) (use th1 thT in simp_all)
  have e2: "fp_mul Binary32 (Finite 1) (Finite ?a1) = Finite ?a2"
    by (rule fp_mul_small) (use a1_lo a1_31 in simp_all)
  have a2_lo: "1 \<le> ?a2" by (rule round_mag_ge_one) (use a1_lo in simp)
  have "1 / 32768 \<le> 1 * ?a1" using a1_lo by linarith
  then have "?a2 \<le> 1 * ?a1 * ?k" by (rule rm32_rel)
  then have a2_hi: "?a2 \<le> ?a1 * ?k" by simp
  have a2_31: "?a2 \<le> 2147483648" by (rule round_mag_le_2_31) (use a1_lo a1_31 in simp_all)
  have q: "?a2 / of_int ih \<le> ?a2"
    using a2_lo ih1 by (simp add: divide_le_eq mult_left_mono [of 1 "of_int ih" ?a2, simplified])
  have q_lo: "1 / 32768 \<le> ?a2 / of_int ih"
  proof -
    have "1 / 16384 \<le> ?a2 / of_int ih"
      by (rule frac_le) (use a2_lo ih1 ihN in simp_all)
    then show ?thesis by linarith
  qed
  have e3: "fp_div Binary32 (Finite ?a2) (int_to_float ih) = Finite ?h"
    using fp_div_small [of ?a2 "of_int ih" Binary32] a2_lo ih1 q a2_31 i
    by (simp add: int_to_float_exact)
  have h0: "0 \<le> ?h" by (rule round_mag_nonneg) (use a2_lo ih1 in simp)
  have "?h \<le> ?a2 / of_int ih * ?k" by (rule rm32_rel [OF q_lo])
  then have "?h * of_int ih \<le> ?a2 / of_int ih * ?k * of_int ih"
    by (rule mult_right_mono) (use ih1 in simp)
  also have "\<dots> = ?a2 * ?k" using ih1 by simp
  finally have h_hi: "?h * of_int ih \<le> ?a2 * ?k" .
  have "?h * of_int ih < 2147483648"
  proof -
    define X A1 A2 H where "X = (of_int th :: rat)" and "A1 = ?a1" and "A2 = ?a2"
      and "H = ?h * of_int ih"
    have h: "X \<le> 1342177280" "A1 \<le> X * ?k" "A2 \<le> A1 * ?k" "H \<le> A2 * ?k"
      using thT a1_hi a2_hi h_hi by (simp_all only: X_def A1_def A2_def H_def)
    then have "H < 2147483648" by simp
    then show ?thesis by (simp only: H_def)
  qed
  with e1 e2 e3 h0 show ?thesis by simp
qed

lemma product3_value:
  assumes "0 \<le> c" "0 \<le> k" "1 \<le> i" "i < 2147483648" "c * k * i < 2147483648"
  shows "float_to_int (fp_mul Binary64 (fp_mul Binary64 (Finite (of_int c)) (Finite (of_int k)))
            (int_to_double i)) = Inr (c * k * i)"
proof -
  have ck0: "0 \<le> c * k" using assms(1,2) by simp
  have "c * k * 1 \<le> c * k * i" by (rule mult_left_mono) (use assms(3) ck0 in simp_all)
  with assms(5) have ck: "c * k < 2147483648" by simp
  have i: "int_to_double i = Finite (of_int i)"
    by (rule int_to_double_exact) (use assms(3,4) in simp_all)
  have i0: "0 \<le> i" using assms(3) by simp
  have m1: "fp_mul Binary64 (Finite (of_int c)) (Finite (of_int k)) = Finite (of_int (c * k))"
    using fp_mul64_ints [OF assms(1,2)] ck by simp
  have m2: "fp_mul Binary64 (Finite (of_int (c * k))) (Finite (of_int i))
      = Finite (of_int (c * k * i))"
    using fp_mul64_ints [OF ck0 i0] assms(5) by simp
  have "0 \<le> c * k * i" using ck0 i0 by simp
  from float_to_int_of_int [OF this assms(5)] show ?thesis
    by (simp only: i m1 m2)
qed

lemma product2_value:
  assumes "0 \<le> k" "1 \<le> i" "i < 2147483648" "k * i < 2147483648"
  shows "float_to_int (fp_mul Binary64 (Finite (of_int k)) (int_to_double i)) = Inr (k * i)"
proof -
  have i0: "0 \<le> i" using assms(2) by simp
  have i: "int_to_double i = Finite (of_int i)"
    by (rule int_to_double_exact) (use assms(2,3) in simp_all)
  have m: "fp_mul Binary64 (Finite (of_int k)) (Finite (of_int i)) = Finite (of_int (k * i))"
    using fp_mul64_ints [OF assms(1) i0] assms(4) by simp
  have "0 \<le> k * i" using assms(1) i0 by simp
  from float_to_int_of_int [OF this assms(4)] show ?thesis
    by (simp only: i m)
qed

lemma integer_upscale_defined:
  assumes t: "1 \<le> fst t" "fst t \<le> 1342177280" "1 \<le> snd t" "snd t \<le> 1342177280"
    and d: "1 \<le> img_width" "img_width \<le> 16384" "1 \<le> img_height" "img_height \<le> 16384"
  shows "\<exists>t'. integer_upscale options img_width img_height t = Inr t'"
proof (cases "upscale_integer options \<and> img_width < fst t \<and> img_height < snd t
            \<and> fp_less (Finite 1) (smaller_factor options img_width img_height t)")
  case False
  from integer_upscale_not_fired [OF this] show ?thesis by simp
next
  case True
  let ?c = "if cell_x_px options = 2 then 2 else 1 :: int"
  have c: "(of_int ?c :: rat) = 1 \<or> (of_int ?c :: rat) = 2" by simp
  from factor_bound [OF t(1,2) d(1,2) c] obtain w where
    w: "fp_div Binary32
          (fp_div Binary32 (fp_mul Binary32 (Finite 1) (int_to_float (fst t)))
             (Finite (of_int ?c)))
          (int_to_float img_width) = Finite w"
    and w0: "0 \<le> w" and wb: "of_int ?c * (w * of_int img_width) < 2147483648"
    by blast
  from factor_bound_height [OF t(3,4) d(3,4)] obtain h where
    h: "fp_div Binary32 (fp_mul Binary32 (Finite 1) (int_to_float (snd t)))
          (int_to_float img_height) = Finite h"
    and h0: "0 \<le> h" and hb: "h * of_int img_height < 2147483648"
    by blast
  have sf: "smaller_factor options img_width img_height t = Finite (min w h)"
    by (simp only: smaller_factor_def Let_def aspect_correct_of_int w h min_fraction)
  with True have s1: "1 < min w h" by simp
  define k where "k = \<lfloor>min w h\<rfloor>"
  have k1: "1 \<le> k" using s1 by (simp add: k_def le_floor_iff)
  have kw: "of_int k \<le> w" and kh: "of_int k \<le> h"
    using of_int_floor_le [of "min w h"] by (simp_all add: k_def)
  have iw0: "(0::rat) \<le> of_int img_width" and ih0: "(0::rat) \<le> of_int img_height"
    using d by simp_all
  have "of_int ?c * (of_int k * of_int img_width) \<le> of_int ?c * (w * of_int img_width)"
    by (intro mult_left_mono mult_right_mono kw iw0) simp
  with wb have "(of_int (?c * k * img_width) :: rat) < of_int 2147483648"
    by (simp add: mult.assoc)
  then have pw: "?c * k * img_width < 2147483648" by (simp only: of_int_less_iff)
  have "of_int k * of_int img_height \<le> h * of_int img_height"
    by (intro mult_right_mono kh ih0)
  with hb have "(of_int (k * img_height) :: rat) < of_int 2147483648"
    by simp
  then have ph: "k * img_height < 2147483648" by (simp only: of_int_less_iff)
  have k0: "0 \<le> k" using k1 by simp
  have c0: "0 \<le> ?c" by simp
  have iwr: "img_width < 2147483648" and ihr: "img_height < 2147483648" using d by simp_all
  note v1 = product3_value [OF c0 k0 d(1) iwr pw]
  note v2 = product2_value [OF k0 d(3) ihr ph]
  have fl: "fp_floor (Finite (min w h)) = Finite (of_int k)" by (simp add: k_def)
  show ?thesis
    by (simp only: integer_upscale_fired [OF True] sf fl aspect_correct_of_int v1 v2) simp
qed

lemma rotate_options_dims:
  "width (rotate_options orig rot) = (if rot then height orig else width orig)"
  "height (rotate_options orig rot) = (if rot then width orig else height orig)"
  "fill_width (rotate_options orig rot) = (if rot then fill_height orig else fill_width orig)"
  "fill_height (rotate_options orig rot) = (if rot then fill_width orig else fill_height orig)"
  by (simp_all add: rotate_options_def)

text \<open>What the function has computed when it reaches the fractions, for a box and a
  source of at most 16384 in each dimension.\<close>

lemma box_and_fractions:
  assumes d: "1 \<le> img_width" "img_width \<le> 16384" "1 \<le> img_height" "img_height \<le> 16384"
    and b: "1 \<le> width orig" "width orig \<le> 16384" "1 \<le> height orig" "height orig \<le> 16384"
    and n: "\<not> is_nan (width_stretch orig)"
  obtains s options where
    "clamp_width_stretch (width_stretch (rotate_options orig rot)) = Finite s"
    "min_stretch \<le> s" "s \<le> 5"
    "stretch_box (rotate_options orig rot) (Finite s) = Inr options"
    "0 \<le> width options" "width options \<le> width (rotate_options orig rot)"
    "0 \<le> height options" "height options \<le> height (rotate_options orig rot)"
    "1 < s \<longrightarrow> width options
        = \<lfloor>round_mag Binary32 (of_int (width (rotate_options orig rot)) / s)\<rfloor>
      \<and> height options = height (rotate_options orig rot)"
    "\<not> 1 < s \<longrightarrow> width options = width (rotate_options orig rot)
      \<and> height options
          = \<lfloor>round_mag Binary32 (of_int (height (rotate_options orig rot)) * s)\<rfloor>"
    "width_fraction options img_width
       = Finite (round_mag Binary32 (of_int (width options) / of_int img_width))"
    "height_fraction options img_height
       = Finite (round_mag Binary32 (of_int (height options) / of_int img_height))"
proof -
  let ?ro = "rotate_options orig rot"
  have rw: "1 \<le> width ?ro" "width ?ro \<le> 16384" and rh: "1 \<le> height ?ro" "height ?ro \<le> 16384"
    using b by (simp_all add: rotate_options_dims)
  from clamp_width_stretch_range [OF rotate_options_not_nan [OF n, of rot]]
  obtain s where s: "clamp_width_stretch (width_stretch ?ro) = Finite s"
    "min_stretch \<le> s" "s \<le> 5"
    by blast
  from stretch_box_defined [OF rw rh s(2,3)] obtain w' h' where
    box: "stretch_box ?ro (Finite s) = Inr (?ro \<lparr> width := w', height := h' \<rparr>)"
    and w': "0 \<le> w'" "w' \<le> width ?ro" and h': "0 \<le> h'" "h' \<le> height ?ro"
    and big: "1 < s \<longrightarrow> w' = \<lfloor>round_mag Binary32 (of_int (width ?ro) / s)\<rfloor> \<and> h' = height ?ro"
    and small: "\<not> 1 < s \<longrightarrow> w' = width ?ro
        \<and> h' = \<lfloor>round_mag Binary32 (of_int (height ?ro) * s)\<rfloor>"
    by blast
  let ?o = "?ro \<lparr> width := w', height := h' \<rparr>"
  have wN: "w' \<le> 16384" and hN: "h' \<le> 16384" using w' h' rw rh by simp_all
  have fw: "width_fraction ?o img_width
       = Finite (round_mag Binary32 (of_int (width ?o) / of_int img_width))"
    using fraction_eval(1) [OF w'(1) wN d(1,2)] by (simp add: width_fraction_def)
  have fh: "height_fraction ?o img_height
       = Finite (round_mag Binary32 (of_int (height ?o) / of_int img_height))"
    using fraction_eval(1) [OF h'(1) hN d(3,4)] by (simp add: height_fraction_def)
  show thesis
    by (rule that [OF s box _ _ _ _ _ _ fw fh]) (use w' h' big small in simp_all)
qed

lemma CalcScaleToFitDisplay_defined:
  assumes d: "1 \<le> img_width" "img_width \<le> 16384" "1 \<le> img_height" "img_height \<le> 16384"
    and b: "1 \<le> width orig" "width orig \<le> 16384" "1 \<le> height orig" "height orig \<le> 16384"
    and n: "\<not> is_nan (width_stretch orig)"
  shows "\<exists>r. CalcScaleToFitDisplay img_width img_height orig rot = Inr r"
proof -
  let ?ro = "rotate_options orig rot"
  have rw: "width ?ro \<le> 16384" and rh: "height ?ro \<le> 16384"
    using b by (simp_all add: rotate_options_dims)
  from box_and_fractions [OF d b n, of rot] obtain s options where
    s: "clamp_width_stretch (width_stretch ?ro) = Finite s" "min_stretch \<le> s" "s \<le> 5"
    and box: "stretch_box ?ro (Finite s) = Inr options"
    and w: "0 \<le> width options" "width options \<le> width ?ro"
    and h: "0 \<le> height options" "height options \<le> height ?ro"
    and fw: "width_fraction options img_width
       = Finite (round_mag Binary32 (of_int (width options) / of_int img_width))"
    and fh: "height_fraction options img_height
       = Finite (round_mag Binary32 (of_int (height options) / of_int img_height))"
    by blast
  have wN: "width options \<le> 16384" and hN: "height options \<le> 16384"
    using w h rw rh by simp_all
  note box' = box [folded s(1)]
  show ?thesis
  proof (cases "no_scale_needed options (width_fraction options img_width)
              (height_fraction options img_height)")
    case True
    have "cell_x_px options = 2 \<longrightarrow> 2 * img_width \<le> INT_MAX"
      using d by (simp add: INT_MAX_def)
    from return_unscaled_result [OF this, of img_height] d(1) True show ?thesis
      by (simp add: CalcScaleToFitDisplay_cases [OF box'])
  next
    case False
    let ?a = "round_mag Binary32 (of_int (width options) / of_int img_width)"
    let ?b = "round_mag Binary32 (of_int (height options) / of_int img_height)"
    note fa = fraction_eval(2,3) [OF w(1) wN d(1,2)]
    note fb = fraction_eval(2,3) [OF h(1) hN d(3,4)]
    have aN: "?a \<le> 16384" using fa(2) rat_of_int_le_numeral [OF wN] by linarith
    have bN: "?b \<le> 16384" using fb(2) rat_of_int_le_numeral [OF hN] by linarith
    from scale_by_policy_defined [OF w(1) wN h(1) hN fa(1) aN fb(1) bN d]
    obtain t0 where t0: "scale_by_policy options (Finite ?a) (Finite ?b) img_width img_height
        = Inr t0"
      and t0r: "0 \<le> fst t0" "fst t0 \<le> 268435456" "0 \<le> snd t0" "snd t0 \<le> 268435456"
      by blast
    from restretch_defined [OF t0r s(2,3)] obtain t1 where
      t1: "restretch (Finite s) t0 = Inr t1"
      and t1r: "0 \<le> fst t1" "fst t1 \<le> 1342177280" "0 \<le> snd t1" "snd t1 \<le> 1342177280"
      by blast
    note q = quantized_range [OF t1r, of options]
    have "\<exists>t'. integer_upscale options img_width img_height
        (at_least_one (quantize_to_cells options t1)) = Inr t'"
      by (rule integer_upscale_defined [OF _ _ _ _ d]) (use q in simp_all)
    then obtain t' where "integer_upscale options img_width img_height
        (at_least_one (quantize_to_cells options t1)) = Inr t'" ..
    with t0 t1 have "scale_to_fit options (Finite s) img_width img_height
        = Inr (fit_result img_width img_height t')"
      by (simp add: scale_to_fit_def fw fh)
    with False show ?thesis
      by (simp add: CalcScaleToFitDisplay_cases [OF box'] s(1))
  qed
qed

subsection \<open>The letterbox fit\<close>

text \<open>
  The relative error of one rounding, for the quotients and products of the fit: none of
  them is subnormal.
\<close>

lemma rm32_upper:
  assumes "1 / 2147483648 \<le> x"
  shows "round_mag Binary32 x \<le> x * (16777217 / 16777216)"
proof -
  have "pow2 (emin Binary32) \<le> 1 / 2147483648" by (simp add: pow2_def)
  with assms have "pow2 (emin Binary32) \<le> x" by linarith
  from round_mag_upper [OF this] show ?thesis by (simp add: pow2_def)
qed

lemma rm32_lower:
  assumes "1 / 2147483648 \<le> x"
  shows "x * (16777215 / 16777216) \<le> round_mag Binary32 x"
proof -
  have "pow2 (emin Binary32) \<le> 1 / 2147483648" by (simp add: pow2_def)
  with assms have "pow2 (emin Binary32) \<le> x" by linarith
  from round_mag_lower [OF this] show ?thesis by (simp add: pow2_def)
qed

lemma rm32_2_22: "round_mag Binary32 (4194304 * (16777217 / 16777216)) = 4194304"
  by code_simp

lemma rm32_2_24: "round_mag Binary32 16777216 = 16777216"
  by code_simp

text \<open>
  A value that is at most \<open>n\<close> up to one rounding error, for \<open>n\<close> up to \<open>2\<^sup>2\<^sup>2\<close>, is rounded to
  less than \<open>n + 1/2\<close>: \<open>roundf\<close> and the truncation give at most \<open>n\<close>.
\<close>

lemma round_mag_near_int:
  assumes p: "0 \<le> p" "p \<le> of_int n * (16777217 / 16777216)" and n: "0 \<le> n" "n \<le> 4194304"
  shows "round_mag Binary32 p < of_int n + 1 / 2"
proof -
  let ?k = "16777217 / 16777216 :: rat"
  have le: "round_mag Binary32 p \<le> round_mag Binary32 (of_int n * ?k)"
    by (rule round_mag_mono [OF p])
  consider "n = 0" | "n = 4194304" | "1 \<le> n" "n \<le> 4194303" using n by linarith
  then show ?thesis
  proof cases
    case 1
    with p have "p = 0" by simp
    then show ?thesis using 1 by simp
  next
    case 2
    with le have "round_mag Binary32 p \<le> round_mag Binary32 (4194304 * ?k)" by simp
    then show ?thesis unfolding rm32_2_22 using 2 by simp
  next
    case 3
    then have n1: "(1::rat) \<le> of_int n" by simp
    have nN: "(of_int n :: rat) \<le> 4194303" by (rule rat_of_int_le_numeral [OF 3(2)])
    note le
    also have "round_mag Binary32 (of_int n * ?k) \<le> of_int n * ?k * ?k"
      by (rule rm32_upper) (use n1 in linarith)
    also have "\<dots> < of_int n + 1 / 2"
      using nN by simp
    finally show ?thesis .
  qed
qed

lemma floor_round_near_int:
  assumes "0 \<le> p" "p \<le> of_int n * (16777217 / 16777216)" "0 \<le> n" "n \<le> 4194304"
  shows "\<lfloor>round_mag Binary32 p + 1 / 2\<rfloor> \<le> n" "\<lfloor>round_mag Binary32 p\<rfloor> \<le> n"
proof -
  note r = round_mag_near_int [OF assms]
  then have "round_mag Binary32 p + 1 / 2 < of_int (n + 1)" by simp
  then have "\<lfloor>round_mag Binary32 p + 1 / 2\<rfloor> < n + 1" by (simp only: floor_less_iff)
  then show "\<lfloor>round_mag Binary32 p + 1 / 2\<rfloor> \<le> n" by simp
  from r have "round_mag Binary32 p < of_int (n + 1)" by simp
  then have "\<lfloor>round_mag Binary32 p\<rfloor> < n + 1" by (simp only: floor_less_iff)
  then show "\<lfloor>round_mag Binary32 p\<rfloor> \<le> n" by simp
qed

lemma floor_round_ge_int:
  assumes n: "1 \<le> n" "n \<le> 4194304" and p: "of_int n * (16777215 / 16777216) \<le> p"
  shows "n \<le> \<lfloor>round_mag Binary32 p + 1 / 2\<rfloor>"
proof -
  let ?k = "16777215 / 16777216 :: rat"
  have n1: "(1::rat) \<le> of_int n" using n(1) by simp
  have nN: "(of_int n :: rat) \<le> 4194304" by (rule rat_of_int_le_numeral [OF n(2)])
  have "1 / 2147483648 \<le> of_int n * ?k" using n1 by simp
  with p have "1 / 2147483648 \<le> p" by linarith
  from rm32_lower [OF this] have "p * ?k \<le> round_mag Binary32 p" .
  moreover have "of_int n * ?k * ?k \<le> p * ?k"
    by (rule mult_right_mono [OF p]) simp
  moreover have "of_int n - 1 / 2 \<le> of_int n * ?k * ?k" using nN by simp
  ultimately have "of_int n \<le> round_mag Binary32 p + 1 / 2" by linarith
  then show ?thesis by (simp only: le_floor_iff)
qed

text \<open>
  The source dimension as a \<open>float\<close>: exact below \<open>2\<^sup>2\<^sup>4\<close>, rounded above, and never
  below \<open>2\<^sup>2\<^sup>4\<close> when the dimension is not.
\<close>

lemma source_to_float:
  assumes "1 \<le> i" "i \<le> INT_MAX"
  shows "int_to_float i = Finite (round_mag Binary32 (of_int i))"
    and "1 \<le> round_mag Binary32 (of_int i)"
    and "round_mag Binary32 (of_int i) \<le> 2147483648"
    and "i < 16777216 \<Longrightarrow> round_mag Binary32 (of_int i) = of_int i"
    and "16777216 \<le> i \<Longrightarrow> 16777216 \<le> round_mag Binary32 (of_int i)"
proof -
  have i0: "0 \<le> i" and i31: "i \<le> 2147483648" using assms by (simp_all add: INT_MAX_def)
  have r1: "(1::rat) \<le> of_int i" using assms(1) by simp
  have r31: "(of_int i :: rat) \<le> 2147483648" by (rule rat_of_int_le_numeral [OF i31])
  show "int_to_float i = Finite (round_mag Binary32 (of_int i))"
    by (rule int_to_float_pos [OF i0 i31])
  show "1 \<le> round_mag Binary32 (of_int i)" by (rule round_mag_ge_one [OF r1])
  show "round_mag Binary32 (of_int i) \<le> 2147483648"
    by (rule round_mag_le_2_31) (use r1 r31 in simp_all)
  show "round_mag Binary32 (of_int i) = of_int i" if "i < 16777216"
    by (rule round_mag_of_int [OF i0]) (use that in simp)
  show "16777216 \<le> round_mag Binary32 (of_int i)" if "16777216 \<le> i"
  proof -
    have "(of_int 16777216 :: rat) \<le> of_int i" using that by (simp only: of_int_le_iff)
    then have "(16777216 :: rat) \<le> of_int i" by simp
    from round_mag_mono [OF _ this, of Binary32] show ?thesis by (simp add: rm32_2_24)
  qed
qed

text \<open>
  The fraction of a box side \<open>a\<close> and the \<open>float\<close> \<open>d\<close> of a source dimension; multiplied
  back by \<open>d\<close> it is \<open>a\<close> up to one rounding error.
\<close>

lemma fraction_wide:
  assumes a: "0 \<le> a" "a \<le> 4194304" and d: "1 \<le> d" "d \<le> 2147483648"
  shows "fp_div Binary32 (int_to_float a) (Finite d) = Finite (round_mag Binary32 (of_int a / d))"
    and "0 \<le> round_mag Binary32 (of_int a / d)"
    and "round_mag Binary32 (of_int a / d) * d \<le> of_int a * (16777217 / 16777216)"
    and "1 \<le> a \<Longrightarrow> of_int a * (16777215 / 16777216) \<le> round_mag Binary32 (of_int a / d) * d"
proof -
  let ?q = "of_int a / d :: rat"
  have a0: "(0::rat) \<le> of_int a" using a(1) by simp
  have aN: "(of_int a :: rat) \<le> 4194304" by (rule rat_of_int_le_numeral [OF a(2)])
  have d0: "0 < d" using d(1) by simp
  have q0: "0 \<le> ?q" using a0 d0 by simp
  have qa: "?q \<le> of_int a"
    using a0 d(1) by (simp add: divide_le_eq mult_left_mono [of 1 d "of_int a", simplified])
  have e: "int_to_float a = Finite (of_int a)"
    by (rule int_to_float_exact) (use a in simp_all)
  show "fp_div Binary32 (int_to_float a) (Finite d) = Finite (round_mag Binary32 ?q)"
    unfolding e by (rule fp_div_small [OF a0 d0]) (use qa aN in linarith)
  show "0 \<le> round_mag Binary32 ?q" by (rule round_mag_nonneg [OF q0])
  show "round_mag Binary32 ?q * d \<le> of_int a * (16777217 / 16777216)"
  proof (cases "a = 0")
    case True
    then show ?thesis by simp
  next
    case False
    with a have a1: "(1::rat) \<le> of_int a" by simp
    have "1 / 2147483648 \<le> ?q"
      by (rule frac_le) (use a1 d d0 in simp_all)
    from rm32_upper [OF this]
    have "round_mag Binary32 ?q * d \<le> ?q * (16777217 / 16777216) * d"
      by (rule mult_right_mono) (use d0 in simp)
    also have "\<dots> = of_int a * (16777217 / 16777216)" using d0 by simp
    finally show ?thesis .
  qed
  show "of_int a * (16777215 / 16777216) \<le> round_mag Binary32 ?q * d" if "1 \<le> a"
  proof -
    from that have a1: "(1::rat) \<le> of_int a" by simp
    have "1 / 2147483648 \<le> ?q"
      by (rule frac_le) (use a1 d d0 in simp_all)
    from rm32_lower [OF this]
    have "?q * (16777215 / 16777216) * d \<le> round_mag Binary32 ?q * d"
      by (rule mult_right_mono) (use d0 in simp)
    moreover have "?q * (16777215 / 16777216) * d = of_int a * (16777215 / 16777216)"
      using d0 by simp
    ultimately show ?thesis by simp
  qed
qed

text \<open>\<open>(int)roundf(fraction * img_dimension)\<close> when the product is small.\<close>

lemma scaled_wide:
  assumes x: "0 \<le> x" and d: "1 \<le> d" "d \<le> INT_MAX"
    and p: "x * round_mag Binary32 (of_int d) \<le> 268435456"
  shows "scaled (Finite x) d
           = Inr \<lfloor>round_mag Binary32 (x * round_mag Binary32 (of_int d)) + 1 / 2\<rfloor>"
    and "0 \<le> \<lfloor>round_mag Binary32 (x * round_mag Binary32 (of_int d)) + 1 / 2\<rfloor>"
proof -
  let ?d = "round_mag Binary32 (of_int d)"
  let ?p = "x * ?d" and ?r = "round_mag Binary32 (x * ?d)"
  note s = source_to_float [OF d]
  have d0: "0 \<le> ?d" using s(2) by simp
  have p0: "0 \<le> ?p" using x d0 by simp
  have r0: "0 \<le> ?r" by (rule round_mag_nonneg [OF p0])
  have rN: "?r \<le> 268435456"
    using round_mag_mono [OF p0 p, of Binary32] by (simp add: rm32_2_28)
  have m: "fp_mul Binary32 (Finite x) (int_to_float d) = Finite ?r"
    unfolding s(1) by (rule fp_mul_small [OF x d0]) (use p in linarith)
  show n0: "0 \<le> \<lfloor>?r + 1 / 2\<rfloor>" using r0 by simp
  have nN: "\<lfloor>?r + 1 / 2\<rfloor> \<le> 268435456" using rN by (simp add: floor_le_iff)
  have "float_to_int (Finite (of_int \<lfloor>?r + 1 / 2\<rfloor>)) = Inr \<lfloor>?r + 1 / 2\<rfloor>"
    by (rule float_to_int_of_int) (use n0 nN in simp_all)
  then show "scaled (Finite x) d = Inr \<lfloor>?r + 1 / 2\<rfloor>"
    by (simp only: scaled_def m roundf_nonneg [OF r0])
qed

lemma scale_by_policy_letterbox:
  assumes "\<not> fill_width options" "\<not> fill_height options"
    and a: "0 \<le> a" and b: "0 \<le> b"
    and d: "1 \<le> img_width" "img_width \<le> INT_MAX" "1 \<le> img_height" "img_height \<le> INT_MAX"
    and p: "min a b * round_mag Binary32 (of_int img_width) \<le> 268435456"
      "min a b * round_mag Binary32 (of_int img_height) \<le> 268435456"
  shows "scale_by_policy options (Finite a) (Finite b) img_width img_height
        = Inr (\<lfloor>round_mag Binary32 (min a b * round_mag Binary32 (of_int img_width)) + 1 / 2\<rfloor>,
               \<lfloor>round_mag Binary32 (min a b * round_mag Binary32 (of_int img_height)) + 1 / 2\<rfloor>)"
proof -
  have mn: "0 \<le> min a b" using a b by simp
  note s_w = scaled_wide(1) [OF mn d(1,2) p(1)]
  note s_h = scaled_wide(1) [OF mn d(3,4) p(2)]
  show ?thesis
    using assms(1,2)
    by (simp only: scale_by_policy_def min_fraction Let_def s_w s_h) simp
qed

lemma restretch_eval:
  assumes t: "0 \<le> fst t0" "fst t0 \<le> 4194304" "0 \<le> snd t0" "snd t0 \<le> 4194304"
    and s: "min_stretch \<le> s" "s \<le> 5"
  shows "1 < s \<Longrightarrow> restretch (Finite s) t0
           = Inr (\<lfloor>round_mag Binary32 (of_int (fst t0) * s)\<rfloor>, snd t0)"
    and "\<not> 1 < s \<Longrightarrow> restretch (Finite s) t0
           = Inr (fst t0, \<lfloor>round_mag Binary32 (of_int (snd t0) / s)\<rfloor>)"
    and "0 \<le> \<lfloor>round_mag Binary32 (of_int (fst t0) * s)\<rfloor>"
    and "0 \<le> \<lfloor>round_mag Binary32 (of_int (snd t0) / s)\<rfloor>"
proof -
  have s0: "0 < s" using s(1) min_stretch_bounds(1) by linarith
  have f0: "(0::rat) \<le> of_int (fst t0)" and s0': "(0::rat) \<le> of_int (snd t0)"
    using t by simp_all
  have fN: "(of_int (fst t0) :: rat) \<le> 4194304" by (rule rat_of_int_le_numeral [OF t(2)])
  have sN: "(of_int (snd t0) :: rat) \<le> 4194304" by (rule rat_of_int_le_numeral [OF t(4)])
  have ef: "int_to_float (fst t0) = Finite (of_int (fst t0))"
    by (rule int_to_float_exact) (use t in simp_all)
  have es: "int_to_float (snd t0) = Finite (of_int (snd t0))"
    by (rule int_to_float_exact) (use t in simp_all)
  have p0: "0 \<le> of_int (fst t0) * s" using f0 s0 by simp
  have "of_int (fst t0) * s \<le> 4194304 * 5" by (rule mult_mono) (use fN s f0 s0 in simp_all)
  then have pT: "of_int (fst t0) * s \<le> 268435456" by simp
  have q0: "0 \<le> of_int (snd t0) / s" using s0' s0 by simp
  have "of_int (snd t0) / s \<le> 4194304 / min_stretch"
    by (rule frac_le) (use sN s s0' min_stretch_bounds in simp_all)
  also have "\<dots> \<le> 268435456" by (simp add: min_stretch_def)
  finally have qT: "of_int (snd t0) / s \<le> 268435456" .
  show r0: "0 \<le> \<lfloor>round_mag Binary32 (of_int (fst t0) * s)\<rfloor>"
    using round_mag_nonneg [OF p0, of Binary32] by simp
  show r0': "0 \<le> \<lfloor>round_mag Binary32 (of_int (snd t0) / s)\<rfloor>"
    using round_mag_nonneg [OF q0, of Binary32] by simp
  show "restretch (Finite s) t0
           = Inr (\<lfloor>round_mag Binary32 (of_int (fst t0) * s)\<rfloor>, snd t0)" if "1 < s"
  proof -
    have m: "fp_mul Binary32 (Finite (of_int (fst t0))) (Finite s)
        = Finite (round_mag Binary32 (of_int (fst t0) * s))"
      by (rule fp_mul_small) (use f0 s0 pT in simp_all)
    have "round_mag Binary32 (of_int (fst t0) * s) \<le> 268435456"
      using round_mag_mono [OF p0 pT, of Binary32] by (simp add: rm32_2_28)
    then have "round_mag Binary32 (of_int (fst t0) * s) < 2147483648" by simp
    from float_to_int_nonneg [OF round_mag_nonneg [OF p0] this]
    have "int_mul_assign_float (fst t0) (Finite s)
        = Inr \<lfloor>round_mag Binary32 (of_int (fst t0) * s)\<rfloor>"
      by (simp only: int_mul_assign_float_def ef m)
    with that show ?thesis by (simp add: restretch_def)
  qed
  show "restretch (Finite s) t0
           = Inr (fst t0, \<lfloor>round_mag Binary32 (of_int (snd t0) / s)\<rfloor>)" if "\<not> 1 < s"
  proof -
    have "of_int (snd t0) / s \<le> 2147483648" using qT by simp
    then have m: "fp_div Binary32 (Finite (of_int (snd t0))) (Finite s)
        = Finite (round_mag Binary32 (of_int (snd t0) / s))"
      by (rule fp_div_small [OF s0' s0])
    have "round_mag Binary32 (of_int (snd t0) / s) \<le> 268435456"
      using round_mag_mono [OF q0 qT, of Binary32] by (simp add: rm32_2_28)
    then have "round_mag Binary32 (of_int (snd t0) / s) < 2147483648" by simp
    from float_to_int_nonneg [OF round_mag_nonneg [OF q0] this]
    have "int_div_assign_float (snd t0) (Finite s)
        = Inr \<lfloor>round_mag Binary32 (of_int (snd t0) / s)\<rfloor>"
      by (simp only: int_div_assign_float_def es m)
    with that show ?thesis by (simp add: restretch_def)
  qed
qed

lemma stretch_box_wide:
  assumes w: "1 \<le> width options" "width options \<le> 4194304"
    and h: "1 \<le> height options" "height options \<le> 4194304"
    and s: "min_stretch \<le> s" "s \<le> 5"
  shows "\<exists>w' h'. stretch_box options (Finite s) = Inr (options \<lparr> width := w', height := h' \<rparr>)
           \<and> 0 \<le> w' \<and> w' \<le> width options \<and> 0 \<le> h' \<and> h' \<le> height options
           \<and> (1 < s \<longrightarrow> w' = \<lfloor>round_mag Binary32 (of_int (width options) / s)\<rfloor>
                        \<and> h' = height options)
           \<and> (\<not> 1 < s \<longrightarrow> w' = width options
                        \<and> h' = \<lfloor>round_mag Binary32 (of_int (height options) * s)\<rfloor>)"
proof (cases "1 < s")
  case True
  have "0 \<le> width options" "width options < 2 ^ 24" "1 \<le> s"
    using w True by simp_all
  note e = int_div_assign_float_eval [OF this]
  have "stretch_box options (Finite s)
      = Inr (options \<lparr> width := \<lfloor>round_mag Binary32 (of_int (width options) / s)\<rfloor>,
                       height := height options \<rparr>)"
    using True by (simp add: stretch_box_def e(1))
  with e(2,3) h True show ?thesis by fastforce
next
  case False
  have "0 \<le> height options" "height options < 2 ^ 24" "0 \<le> s" "s \<le> 1"
    using h s False min_stretch_bounds by simp_all
  note e = int_mul_assign_float_eval [OF this]
  have "stretch_box options (Finite s)
      = Inr (options \<lparr> width := width options,
                       height := \<lfloor>round_mag Binary32 (of_int (height options) * s)\<rfloor> \<rparr>)"
    using False by (simp add: stretch_box_def e(1))
  with e(2,3) w False show ?thesis by fastforce
qed

text \<open>
  What the function has computed when it reaches the fractions, for a box of at most
  \<open>2\<^sup>2\<^sup>2\<close> in each dimension and any source.
\<close>

lemma letterbox_fractions:
  assumes d: "1 \<le> img_width" "img_width \<le> INT_MAX" "1 \<le> img_height" "img_height \<le> INT_MAX"
    and b: "1 \<le> width orig" "width orig \<le> 4194304" "1 \<le> height orig" "height orig \<le> 4194304"
    and n: "\<not> is_nan (width_stretch orig)"
  obtains s options where
    "clamp_width_stretch (width_stretch (rotate_options orig rot)) = Finite s"
    "min_stretch \<le> s" "s \<le> 5"
    "stretch_box (rotate_options orig rot) (Finite s) = Inr options"
    "0 \<le> width options" "width options \<le> width (rotate_options orig rot)"
    "0 \<le> height options" "height options \<le> height (rotate_options orig rot)"
    "1 < s \<longrightarrow> width options
        = \<lfloor>round_mag Binary32 (of_int (width (rotate_options orig rot)) / s)\<rfloor>
      \<and> height options = height (rotate_options orig rot)"
    "\<not> 1 < s \<longrightarrow> width options = width (rotate_options orig rot)
      \<and> height options
          = \<lfloor>round_mag Binary32 (of_int (height (rotate_options orig rot)) * s)\<rfloor>"
    "width_fraction options img_width
       = Finite (round_mag Binary32
           (of_int (width options) / round_mag Binary32 (of_int img_width)))"
    "height_fraction options img_height
       = Finite (round_mag Binary32
           (of_int (height options) / round_mag Binary32 (of_int img_height)))"
proof -
  let ?ro = "rotate_options orig rot"
  have rw: "1 \<le> width ?ro" "width ?ro \<le> 4194304"
    and rh: "1 \<le> height ?ro" "height ?ro \<le> 4194304"
    using b by (simp_all add: rotate_options_dims)
  from clamp_width_stretch_range [OF rotate_options_not_nan [OF n, of rot]]
  obtain s where s: "clamp_width_stretch (width_stretch ?ro) = Finite s"
    "min_stretch \<le> s" "s \<le> 5"
    by blast
  from stretch_box_wide [OF rw rh s(2,3)] obtain w' h' where
    box: "stretch_box ?ro (Finite s) = Inr (?ro \<lparr> width := w', height := h' \<rparr>)"
    and w': "0 \<le> w'" "w' \<le> width ?ro" and h': "0 \<le> h'" "h' \<le> height ?ro"
    and big: "1 < s \<longrightarrow> w' = \<lfloor>round_mag Binary32 (of_int (width ?ro) / s)\<rfloor> \<and> h' = height ?ro"
    and small: "\<not> 1 < s \<longrightarrow> w' = width ?ro
        \<and> h' = \<lfloor>round_mag Binary32 (of_int (height ?ro) * s)\<rfloor>"
    by blast
  let ?o = "?ro \<lparr> width := w', height := h' \<rparr>"
  have wN: "w' \<le> 4194304" and hN: "h' \<le> 4194304" using w' h' rw rh by simp_all
  note sw = source_to_float [OF d(1,2)] and sh = source_to_float [OF d(3,4)]
  have fw: "width_fraction ?o img_width
       = Finite (round_mag Binary32 (of_int (width ?o) / round_mag Binary32 (of_int img_width)))"
    using fraction_wide(1) [OF w'(1) wN sw(2,3)] by (simp add: width_fraction_def sw(1))
  have fh: "height_fraction ?o img_height
       = Finite (round_mag Binary32 (of_int (height ?o) / round_mag Binary32 (of_int img_height)))"
    using fraction_wide(1) [OF h'(1) hN sh(2,3)] by (simp add: height_fraction_def sh(1))
  show thesis
    by (rule that [OF s box _ _ _ _ _ _ fw fh]) (use w' h' big small in simp_all)
qed

lemma quantized_le:
  assumes "0 \<le> fst t1" "0 \<le> snd t1" "1 \<le> n"
  shows "fst t1 \<le> n \<Longrightarrow> fst (at_least_one (quantize_to_cells options t1)) \<le> n"
    and "snd t1 \<le> n \<Longrightarrow> snd (at_least_one (quantize_to_cells options t1)) \<le> n"
proof -
  have q: "fst (quantize_to_cells options t1) \<le> fst t1"
    "snd (quantize_to_cells options t1) \<le> snd t1"
    using assms int_div_small_cell [of "fst t1" "cell_x_px options"]
      int_div_small_cell [of "snd t1" "cell_y_px options"]
    by (auto simp: quantize_to_cells_def)
  show "fst (at_least_one (quantize_to_cells options t1)) \<le> n" if "fst t1 \<le> n"
    using q(1) that assms(3) by (auto simp: at_least_one_def)
  show "snd (at_least_one (quantize_to_cells options t1)) \<le> n" if "snd t1 \<le> n"
    using q(2) that assms(3) by (auto simp: at_least_one_def)
qed

text \<open>A fraction above 1 means that the source dimension is below the box side.\<close>

lemma fraction_greater_one:
  assumes a: "0 \<le> a" "a \<le> 4194304" and i: "1 \<le> i" "i \<le> INT_MAX"
    and f: "1 < round_mag Binary32 (of_int a / round_mag Binary32 (of_int i))"
  shows "i < a"
proof -
  let ?d = "round_mag Binary32 (of_int i)"
  note s = source_to_float [OF i]
  have d0: "0 < ?d" using s(2) by simp
  have lt: "?d < of_int a"
  proof (rule ccontr)
    assume "\<not> ?d < of_int a"
    then have "of_int a / ?d \<le> 1" using d0 by (simp add: divide_le_eq)
    moreover have "0 \<le> of_int a / ?d" using a(1) d0 by simp
    ultimately have "round_mag Binary32 (of_int a / ?d) \<le> round_mag Binary32 1"
      by (rule round_mag_mono [rotated])
    with f show False by (simp add: rm32_1)
  qed
  have "(of_int a :: rat) \<le> 4194304" by (rule rat_of_int_le_numeral [OF a(2)])
  with lt have "?d < 16777216" by linarith
  with s(5) have "i < 16777216" by (cases "i < 16777216") simp_all
  with s(4) lt have "(of_int i :: rat) < of_int a" by simp
  then show ?thesis by (simp only: of_int_less_iff)
qed

text \<open>
  The target of the letterbox policy, before the stretch goes back: within the stretched
  box, and within the source when the smaller fraction is at most 1.
\<close>

lemma letterbox_target:
  assumes w: "0 \<le> w" "w \<le> 4194304" and h: "0 \<le> h" "h \<le> 4194304"
    and d: "1 \<le> img_width" "img_width \<le> INT_MAX" "1 \<le> img_height" "img_height \<le> INT_MAX"
    and fl: "\<not> fill_width options" "\<not> fill_height options"
  defines "a \<equiv> round_mag Binary32 (of_int w / round_mag Binary32 (of_int img_width))"
    and "b \<equiv> round_mag Binary32 (of_int h / round_mag Binary32 (of_int img_height))"
  defines "tw0 \<equiv> \<lfloor>round_mag Binary32 (min a b * round_mag Binary32 (of_int img_width)) + 1 / 2\<rfloor>"
    and "th0 \<equiv> \<lfloor>round_mag Binary32 (min a b * round_mag Binary32 (of_int img_height)) + 1 / 2\<rfloor>"
  shows "scale_by_policy options (Finite a) (Finite b) img_width img_height = Inr (tw0, th0)"
    and "0 \<le> tw0" "tw0 \<le> w" "0 \<le> th0" "th0 \<le> h"
    and "min a b \<le> 1 \<Longrightarrow> tw0 \<le> img_width"
    and "min a b \<le> 1 \<Longrightarrow> th0 \<le> img_height"
proof -
  let ?k = "16777217 / 16777216 :: rat"
  let ?I = "round_mag Binary32 (of_int img_width)"
  let ?J = "round_mag Binary32 (of_int img_height)"
  let ?m = "min a b"
  note sw = source_to_float [OF d(1,2)] and sh = source_to_float [OF d(3,4)]
  note fa = fraction_wide(2,3) [OF w sw(2,3), folded a_def]
  note fb = fraction_wide(2,3) [OF h sh(2,3), folded b_def]
  have I0: "0 \<le> ?I" and J0: "0 \<le> ?J" using sw(2) sh(2) by simp_all
  have m0: "0 \<le> ?m" using fa(1) fb(1) by simp
  have wN: "(of_int w :: rat) \<le> 4194304" by (rule rat_of_int_le_numeral [OF w(2)])
  have hN: "(of_int h :: rat) \<le> 4194304" by (rule rat_of_int_le_numeral [OF h(2)])
  have "?m * ?I \<le> a * ?I" by (rule mult_right_mono) (use I0 in simp_all)
  with fa(2) have pw: "?m * ?I \<le> of_int w * ?k" by linarith
  have "?m * ?J \<le> b * ?J" by (rule mult_right_mono) (use J0 in simp_all)
  with fb(2) have ph: "?m * ?J \<le> of_int h * ?k" by linarith
  have pw28: "?m * ?I \<le> 268435456" using pw wN by linarith
  have ph28: "?m * ?J \<le> 268435456" using ph hN by linarith
  show "scale_by_policy options (Finite a) (Finite b) img_width img_height = Inr (tw0, th0)"
    unfolding tw0_def th0_def
    by (rule scale_by_policy_letterbox [OF fl fa(1) fb(1) d pw28 ph28])
  show "0 \<le> tw0" unfolding tw0_def by (rule scaled_wide(2) [OF m0 d(1,2) pw28])
  show "0 \<le> th0" unfolding th0_def by (rule scaled_wide(2) [OF m0 d(3,4) ph28])
  have pw0: "0 \<le> ?m * ?I" using m0 I0 by simp
  have ph0: "0 \<le> ?m * ?J" using m0 J0 by simp
  show tw_w: "tw0 \<le> w" unfolding tw0_def by (rule floor_round_near_int(1) [OF pw0 pw w])
  show th_h: "th0 \<le> h" unfolding th0_def by (rule floor_round_near_int(1) [OF ph0 ph h])
  show "tw0 \<le> img_width" if m1: "?m \<le> 1"
  proof (cases "img_width \<le> 4194304")
    case True
    then have e: "?I = of_int img_width" by (intro sw(4)) simp
    have "?m * ?I \<le> 1 * ?I" by (rule mult_right_mono [OF m1 I0])
    also have "\<dots> \<le> of_int img_width * ?k" using I0 by (simp add: e)
    finally show ?thesis
      unfolding tw0_def by (rule floor_round_near_int(1) [OF pw0]) (use d True in simp_all)
  next
    case False
    with tw_w w(2) show ?thesis by simp
  qed
  show "th0 \<le> img_height" if m1: "?m \<le> 1"
  proof (cases "img_height \<le> 4194304")
    case True
    then have e: "?J = of_int img_height" by (intro sh(4)) simp
    have "?m * ?J \<le> 1 * ?J" by (rule mult_right_mono [OF m1 J0])
    also have "\<dots> \<le> of_int img_height * ?k" using J0 by (simp add: e)
    finally show ?thesis
      unfolding th0_def by (rule floor_round_near_int(1) [OF ph0]) (use d True in simp_all)
  next
    case False
    with th_h h(2) show ?thesis by simp
  qed
qed

lemma letterbox_within_box:
  assumes d: "1 \<le> img_width" "img_width \<le> INT_MAX" "1 \<le> img_height" "img_height \<le> INT_MAX"
    and b: "1 \<le> width orig" "width orig \<le> 4194304" "1 \<le> height orig" "height orig \<le> 4194304"
    and n: "\<not> is_nan (width_stretch orig)"
    and lb: "\<not> fill_width orig" "\<not> fill_height orig" "\<not> upscale orig"
  shows "\<exists>r. CalcScaleToFitDisplay img_width img_height orig rot = Inr r
           \<and> target_height r \<le> height (rotate_options orig rot)
           \<and> (target_width r \<le> width (rotate_options orig rot)
              \<or> cell_x_px orig = 2 \<and> target_width r = 2 * img_width
                \<and> img_width \<le> width (rotate_options orig rot)
                \<and> target_height r = img_height)"
proof -
  let ?ro = "rotate_options orig rot"
  let ?W = "width ?ro" and ?H = "height ?ro"
  let ?k = "16777217 / 16777216 :: rat"
  have W: "1 \<le> ?W" "?W \<le> 4194304" and H: "1 \<le> ?H" "?H \<le> 4194304"
    using b by (simp_all add: rotate_options_dims)
  from letterbox_fractions [OF d b n, of rot] obtain s options where
    s: "clamp_width_stretch (width_stretch ?ro) = Finite s" "min_stretch \<le> s" "s \<le> 5"
    and box: "stretch_box ?ro (Finite s) = Inr options"
    and w: "0 \<le> width options" "width options \<le> ?W"
    and h: "0 \<le> height options" "height options \<le> ?H"
    and big: "1 < s \<longrightarrow> width options = \<lfloor>round_mag Binary32 (of_int ?W / s)\<rfloor>
        \<and> height options = ?H"
    and small: "\<not> 1 < s \<longrightarrow> width options = ?W
        \<and> height options = \<lfloor>round_mag Binary32 (of_int ?H * s)\<rfloor>"
    and fw: "width_fraction options img_width
       = Finite (round_mag Binary32
           (of_int (width options) / round_mag Binary32 (of_int img_width)))"
    and fh: "height_fraction options img_height
       = Finite (round_mag Binary32
           (of_int (height options) / round_mag Binary32 (of_int img_height)))"
    by blast
  let ?w = "width options" and ?h = "height options"
  let ?a = "round_mag Binary32 (of_int ?w / round_mag Binary32 (of_int img_width))"
  let ?b = "round_mag Binary32 (of_int ?h / round_mag Binary32 (of_int img_height))"
  have wN: "?w \<le> 4194304" and hN: "?h \<le> 4194304" using w h W H by simp_all
  note box' = box [folded s(1)]
  note flags = stretch_box_flags [OF box]
  have fl: "\<not> fill_width options" "\<not> fill_height options" "\<not> upscale options"
    using lb by (simp_all add: flags rotate_options_dims)
  have cx: "cell_x_px options = cell_x_px orig" by (simp add: flags)
  have s0: "0 < s" using s(2) min_stretch_bounds(1) by linarith
  show ?thesis
  proof (cases "1 < ?a \<and> 1 < ?b")
    case True
    then have nsn: "no_scale_needed options (width_fraction options img_width)
        (height_fraction options img_height)"
      using fl by (simp add: no_scale_needed_def fw fh)
    have "img_width < ?w"
      by (rule fraction_greater_one [OF w(1) wN d(1,2)]) (use True in simp)
    with w(2) have iwW: "img_width \<le> ?W" by simp
    have "img_height < ?h"
      by (rule fraction_greater_one [OF h(1) hN d(3,4)]) (use True in simp)
    with h(2) have ihH: "img_height \<le> ?H" by simp
    have "cell_x_px options = 2 \<longrightarrow> 2 * img_width \<le> INT_MAX"
      using iwW W(2) by (simp add: INT_MAX_def)
    from return_unscaled_result [OF this, of img_height] d(1) nsn
    have "CalcScaleToFitDisplay img_width img_height orig rot
       = Inr (if cell_x_px orig = 2
            then \<lparr> target_width = 2 * img_width, target_height = img_height,
                   needs_scaling = True \<rparr>
            else \<lparr> target_width = img_width, target_height = img_height,
                   needs_scaling = False \<rparr>)"
      by (simp add: CalcScaleToFitDisplay_cases [OF box'] cx)
    with iwW ihH show ?thesis by auto
  next
    case False
    then have nsn: "\<not> no_scale_needed options (width_fraction options img_width)
        (height_fraction options img_height)"
      using fl by (simp add: no_scale_needed_def fw fh)
    let ?m = "min ?a ?b"
    from False have m1: "?m \<le> 1" by (auto simp: min_def)
    let ?tw0 = "\<lfloor>round_mag Binary32 (?m * round_mag Binary32 (of_int img_width)) + 1 / 2\<rfloor>"
    let ?th0 = "\<lfloor>round_mag Binary32 (?m * round_mag Binary32 (of_int img_height)) + 1 / 2\<rfloor>"
    note lt = letterbox_target [OF w(1) wN h(1) hN d fl(1,2)]
    note t0 = lt(1) and tw0_0 = lt(2) and tw0_w = lt(3) and th0_0 = lt(4) and th0_h = lt(5)
    note tw0_i = lt(6) [OF m1] and th0_i = lt(7) [OF m1]
    have tw0N: "?tw0 \<le> 4194304" by (rule order_trans [OF tw0_w wN])
    have th0N: "?th0 \<le> 4194304" by (rule order_trans [OF th0_h hN])
    have t0r: "0 \<le> fst (?tw0, ?th0)" "fst (?tw0, ?th0) \<le> 4194304"
      "0 \<le> snd (?tw0, ?th0)" "snd (?tw0, ?th0) \<le> 4194304"
      unfolding fst_conv snd_conv by (rule tw0_0 tw0N th0_0 th0N)+
    note re = restretch_eval [OF t0r s(2,3)]
    \<comment> \<open>the stretch goes back\<close>
    have "\<exists>t1. restretch (Finite s) (?tw0, ?th0) = Inr t1
        \<and> 0 \<le> fst t1 \<and> fst t1 \<le> ?W \<and> 0 \<le> snd t1 \<and> snd t1 \<le> ?H
        \<and> (fst t1 \<le> img_width \<or> snd t1 \<le> img_height)"
    proof (cases "1 < s")
      case True
      with big have w': "?w = \<lfloor>round_mag Binary32 (of_int ?W / s)\<rfloor>" and h': "?h = ?H"
        by simp_all
      have "1 / 5 \<le> of_int ?W / s"
        by (rule frac_le) (use W(1) s s0 in simp_all)
      then have "1 / 2147483648 \<le> of_int ?W / s" by linarith
      from rm32_upper [OF this] have "round_mag Binary32 (of_int ?W / s) \<le> of_int ?W / s * ?k" .
      moreover have "of_int ?w \<le> round_mag Binary32 (of_int ?W / s)"
        unfolding w' by (rule of_int_floor_le)
      ultimately have "of_int ?w \<le> of_int ?W / s * ?k" by linarith
      then have "of_int ?w * s \<le> of_int ?W / s * ?k * s"
        by (rule mult_right_mono) (use s0 in simp)
      also have "\<dots> = of_int ?W * ?k" using s0 by simp
      finally have ws: "of_int ?w * s \<le> of_int ?W * ?k" .
      have "of_int ?tw0 * s \<le> of_int ?w * s"
        by (rule mult_right_mono) (use tw0_w s0 in simp_all)
      with ws have p: "of_int ?tw0 * s \<le> of_int ?W * ?k" by linarith
      have p0: "0 \<le> of_int ?tw0 * s" using tw0_0 s0 by simp
      have "\<lfloor>round_mag Binary32 (of_int ?tw0 * s)\<rfloor> \<le> ?W"
        by (rule floor_round_near_int(2) [OF p0 p]) (use W in simp_all)
      with re(1) [OF True] re(3) th0_0 th0_h th0_i h' show ?thesis by simp
    next
      case False
      with small have w': "?w = ?W" and h': "?h = \<lfloor>round_mag Binary32 (of_int ?H * s)\<rfloor>"
        by simp_all
      have "min_stretch \<le> of_int ?H * s"
        using mult_mono [of 1 "of_int ?H" min_stretch s] H(1) s(2) min_stretch_bounds(1)
        by simp
      then have "1 / 2147483648 \<le> of_int ?H * s" using min_stretch_def by simp
      from rm32_upper [OF this] have "round_mag Binary32 (of_int ?H * s) \<le> of_int ?H * s * ?k" .
      moreover have "of_int ?h \<le> round_mag Binary32 (of_int ?H * s)"
        unfolding h' by (rule of_int_floor_le)
      ultimately have "of_int ?h \<le> of_int ?H * s * ?k" by linarith
      then have "of_int ?h / s \<le> of_int ?H * s * ?k / s"
        by (rule divide_right_mono) (use s0 in simp)
      also have "\<dots> = of_int ?H * ?k" using s0 by simp
      finally have hs: "of_int ?h / s \<le> of_int ?H * ?k" .
      have "of_int ?th0 / s \<le> of_int ?h / s"
        by (rule divide_right_mono) (use th0_h s0 in simp_all)
      with hs have p: "of_int ?th0 / s \<le> of_int ?H * ?k" by linarith
      have p0: "0 \<le> of_int ?th0 / s" using th0_0 s0 by simp
      have "\<lfloor>round_mag Binary32 (of_int ?th0 / s)\<rfloor> \<le> ?H"
        by (rule floor_round_near_int(2) [OF p0 p]) (use H in simp_all)
      with re(2) [OF False] re(4) tw0_0 tw0_w tw0_i w' show ?thesis by simp
    qed
    then obtain t1 where t1: "restretch (Finite s) (?tw0, ?th0) = Inr t1"
      and t1r: "0 \<le> fst t1" "fst t1 \<le> ?W" "0 \<le> snd t1" "snd t1 \<le> ?H"
      and t1i: "fst t1 \<le> img_width \<or> snd t1 \<le> img_height"
      by blast
    let ?t = "at_least_one (quantize_to_cells options t1)"
    have tW: "fst ?t \<le> ?W" by (rule quantized_le(1) [OF t1r(1,3) W(1) t1r(2)])
    have tH: "snd ?t \<le> ?H" by (rule quantized_le(2) [OF t1r(1,3) H(1) t1r(4)])
    have "fst ?t \<le> img_width \<or> snd ?t \<le> img_height"
      using t1i quantized_le(1) [OF t1r(1,3) d(1)] quantized_le(2) [OF t1r(1,3) d(3)]
      by blast
    then have "\<not> (upscale_integer options \<and> img_width < fst ?t \<and> img_height < snd ?t
        \<and> fp_less (Finite 1) (smaller_factor options img_width img_height ?t))"
      by auto
    from integer_upscale_not_fired [OF this] t0 t1
    have "scale_to_fit options (Finite s) img_width img_height
        = Inr (fit_result img_width img_height ?t)"
      by (simp add: scale_to_fit_def fw fh)
    with nsn have "CalcScaleToFitDisplay img_width img_height orig rot
        = Inr (fit_result img_width img_height ?t)"
      by (simp add: CalcScaleToFitDisplay_cases [OF box'] s(1))
    with tW tH show ?thesis by (simp add: fit_result_def)
  qed
qed

text \<open>Rounding the smaller fraction times the source dimension gives the bound back.\<close>

lemma scaled_fraction_is_bound:
  assumes a: "1 \<le> a" "a \<le> 4194304" and d: "1 \<le> d" "d \<le> 2147483648"
  shows "\<lfloor>round_mag Binary32 (round_mag Binary32 (of_int a / d) * d) + 1 / 2\<rfloor> = a"
proof (rule antisym)
  have a0: "0 \<le> a" using a(1) by simp
  note f = fraction_wide(2,3) [OF a0 a(2) d] fraction_wide(4) [OF a0 a(2) d a(1)]
  have "0 \<le> round_mag Binary32 (of_int a / d) * d"
    using f(1) d(1) by simp
  from floor_round_near_int(1) [OF this f(2) a0 a(2)]
  show "\<lfloor>round_mag Binary32 (round_mag Binary32 (of_int a / d) * d) + 1 / 2\<rfloor> \<le> a" .
  show "a \<le> \<lfloor>round_mag Binary32 (round_mag Binary32 (of_int a / d) * d) + 1 / 2\<rfloor>"
    by (rule floor_round_ge_int [OF a f(3)])
qed

lemma quantized_box:
  assumes "quantize_to_cells ro (w, h) = (w, h)" "1 \<le> w" "1 \<le> h"
    and "cell_x_px options = cell_x_px ro" "cell_y_px options = cell_y_px ro"
  shows "fst (at_least_one (quantize_to_cells options (w, y))) = w"
    and "snd (at_least_one (quantize_to_cells options (x, h))) = h"
  using assms by (auto simp: quantize_to_cells_def at_least_one_def split: if_splits)

lemma letterbox_touches_box:
  assumes d: "1 \<le> img_width" "img_width \<le> INT_MAX" "1 \<le> img_height" "img_height \<le> INT_MAX"
    and b: "1 \<le> width orig" "width orig \<le> 4194304" "1 \<le> height orig" "height orig \<le> 4194304"
    and n: "\<not> is_nan (width_stretch orig)"
    and lb: "\<not> fill_width orig" "\<not> fill_height orig" "\<not> upscale orig"
    and one: "clamp_width_stretch (width_stretch (rotate_options orig rot)) = Finite 1"
    and cells: "quantize_to_cells (rotate_options orig rot)
        (width (rotate_options orig rot), height (rotate_options orig rot))
        = (width (rotate_options orig rot), height (rotate_options orig rot))"
    and large: "width (rotate_options orig rot) \<le> img_width
        \<or> height (rotate_options orig rot) \<le> img_height"
  shows "\<exists>r. CalcScaleToFitDisplay img_width img_height orig rot = Inr r
           \<and> (target_width r = width (rotate_options orig rot)
              \<or> target_height r = height (rotate_options orig rot))"
proof -
  let ?ro = "rotate_options orig rot"
  let ?W = "width ?ro" and ?H = "height ?ro"
  have W: "1 \<le> ?W" "?W \<le> 4194304" and H: "1 \<le> ?H" "?H \<le> 4194304"
    using b by (simp_all add: rotate_options_dims)
  from letterbox_fractions [OF d b n, of rot] obtain s options where
    s: "clamp_width_stretch (width_stretch ?ro) = Finite s" "min_stretch \<le> s" "s \<le> 5"
    and box: "stretch_box ?ro (Finite s) = Inr options"
    and small: "\<not> 1 < s \<longrightarrow> width options = ?W
        \<and> height options = \<lfloor>round_mag Binary32 (of_int ?H * s)\<rfloor>"
    and fw: "width_fraction options img_width
       = Finite (round_mag Binary32
           (of_int (width options) / round_mag Binary32 (of_int img_width)))"
    and fh: "height_fraction options img_height
       = Finite (round_mag Binary32
           (of_int (height options) / round_mag Binary32 (of_int img_height)))"
    by blast
  from s(1) one have s1: "s = 1" by simp
  have rH: "round_mag Binary32 (of_int ?H) = of_int ?H"
    by (rule round_mag_of_int) (use H in simp_all)
  from small s1 rH have w': "width options = ?W" and h': "height options = ?H" by simp_all
  let ?I = "round_mag Binary32 (of_int img_width)"
  let ?J = "round_mag Binary32 (of_int img_height)"
  let ?a = "round_mag Binary32 (of_int ?W / ?I)"
  let ?b = "round_mag Binary32 (of_int ?H / ?J)"
  note sw = source_to_float [OF d(1,2)] and sh = source_to_float [OF d(3,4)]
  note box' = box [folded s(1)]
  note flags = stretch_box_flags [OF box]
  have fl: "\<not> fill_width options" "\<not> fill_height options" "\<not> upscale options"
    using lb by (simp_all add: flags rotate_options_dims)
  have W0: "0 \<le> ?W" and H0: "0 \<le> ?H" using W H by simp_all
  have ab: "\<not> (1 < ?a \<and> 1 < ?b)"
    using large fraction_greater_one [OF W0 W(2) d(1,2)] fraction_greater_one [OF H0 H(2) d(3,4)]
    by fastforce
  then have m1: "min ?a ?b \<le> 1" by (auto simp: min_def)
  have nsn: "\<not> no_scale_needed options (width_fraction options img_width)
      (height_fraction options img_height)"
    using fl ab by (simp add: no_scale_needed_def fw fh w' h')
  let ?m = "min ?a ?b"
  let ?tw0 = "\<lfloor>round_mag Binary32 (?m * ?I) + 1 / 2\<rfloor>"
  let ?th0 = "\<lfloor>round_mag Binary32 (?m * ?J) + 1 / 2\<rfloor>"
  note lt = letterbox_target [OF W0 W(2) H0 H(2) d fl(1,2)]
  note t0 = lt(1) and tw0_0 = lt(2) and tw0_w = lt(3) and th0_0 = lt(4) and th0_h = lt(5)
  note tw0_i = lt(6) [OF m1]
  have tw0N: "?tw0 \<le> 4194304" by (rule order_trans [OF tw0_w W(2)])
  have th0N: "?th0 \<le> 4194304" by (rule order_trans [OF th0_h H(2)])
  have t0r: "0 \<le> fst (?tw0, ?th0)" "fst (?tw0, ?th0) \<le> 4194304"
    "0 \<le> snd (?tw0, ?th0)" "snd (?tw0, ?th0) \<le> 4194304"
    unfolding fst_conv snd_conv by (rule tw0_0 tw0N th0_0 th0N)+
  have "round_mag Binary32 (of_int ?th0) = of_int ?th0"
    by (rule round_mag_of_int [OF th0_0]) (use th0N in simp)
  with restretch_eval(2) [OF t0r s(2,3)] s1
  have t1: "restretch (Finite s) (?tw0, ?th0) = Inr (?tw0, ?th0)" by simp
  let ?t = "at_least_one (quantize_to_cells options (?tw0, ?th0))"
  have "fst ?t \<le> img_width"
    by (rule quantized_le(1) [OF t0r(1,3) d(1)]) (simp only: fst_conv tw0_i)
  then have "\<not> (upscale_integer options \<and> img_width < fst ?t \<and> img_height < snd ?t
      \<and> fp_less (Finite 1) (smaller_factor options img_width img_height ?t))"
    by auto
  from integer_upscale_not_fired [OF this] t0 t1
  have "scale_to_fit options (Finite s) img_width img_height
      = Inr (fit_result img_width img_height ?t)"
    by (simp add: scale_to_fit_def fw fh w' h')
  with nsn have r: "CalcScaleToFitDisplay img_width img_height orig rot
      = Inr (fit_result img_width img_height ?t)"
    by (simp add: CalcScaleToFitDisplay_cases [OF box'] s(1))
  have cf: "cell_x_px options = cell_x_px ?ro" "cell_y_px options = cell_y_px ?ro"
    by (simp_all add: flags)
  note q = quantized_box [OF cells W(1) H(1) cf]
  have "fst ?t = ?W \<or> snd ?t = ?H"
  proof (cases "?a \<le> ?b")
    case True
    then have "?m = ?a" by simp
    then have "?tw0 = ?W"
      using scaled_fraction_is_bound [OF W sw(2,3)] by simp
    then show ?thesis using q(1) [of ?th0] by simp
  next
    case False
    then have "?m = ?b" by simp
    then have "?th0 = ?H"
      using scaled_fraction_is_bound [OF H sh(2,3)] by simp
    then show ?thesis using q(2) [of ?tw0] by simp
  qed
  with r show ?thesis by (simp add: fit_result_def)
qed

subsection \<open>The factor of the integer upscaling\<close>

lemma rm32_idem:
  assumes "1 \<le> x"
  shows "round_mag Binary32 (round_mag Binary32 x) = round_mag Binary32 x"
proof (rule round_mag_idem)
  have "pow2 (emin Binary32) \<le> 1" by (simp add: pow2_def)
  with assms show "pow2 (emin Binary32) \<le> x" by linarith
qed

lemma rm32_halved:
  assumes "1 \<le> x"
  shows "round_mag Binary32 (round_mag Binary32 x / 2) = round_mag Binary32 x / 2"
proof -
  have "pow2 (emin Binary32 + 1) \<le> 1" by (simp add: pow2_def)
  moreover have "1 \<le> round_mag Binary32 x" by (rule round_mag_ge_one [OF assms])
  ultimately have "pow2 (emin Binary32 + 1) \<le> round_mag Binary32 x" by linarith
  from round_mag_half [OF this] show ?thesis by (simp only: rm32_idem [OF assms])
qed

text \<open>Whatever the function has stored in an \<open>int\<close> is an \<open>int\<close>.\<close>

lemma float_to_int_range:
  assumes "float_to_int x = Inr v"
  shows "v \<le> INT_MAX"
proof (cases x)
  case (Finite r)
  with assms show ?thesis by (simp split: if_splits)
next
  case MinusZero
  with assms show ?thesis by (simp add: INT_MAX_def)
qed (use assms in simp_all)

lemma bind_Inr:
  assumes "(case x of Inl e \<Rightarrow> Inl e | Inr v \<Rightarrow> g v) = Inr r"
  obtains v where "x = Inr v" "g v = Inr r"
  using assms by (cases x) simp_all

lemma scaled_range:
  assumes "scaled fraction img_dim = Inr v"
  shows "v \<le> INT_MAX"
  using assms unfolding scaled_def by (rule float_to_int_range)

lemma stretch_box_range:
  assumes s: "stretch_box options ws = Inr options'"
    and o: "width options \<le> INT_MAX" "height options \<le> INT_MAX"
  shows "width options' \<le> INT_MAX" "height options' \<le> INT_MAX"
proof -
  show "width options' \<le> INT_MAX"
  proof (cases "fp_less (Finite 1) ws")
    case True
    with s have "(case int_div_assign_float (width options) ws of
        Inl e \<Rightarrow> Inl e | Inr w \<Rightarrow> Inr (options \<lparr> width := w \<rparr>)) = Inr options'"
      by (simp add: stretch_box_def)
    then obtain w where "int_div_assign_float (width options) ws = Inr w"
      "Inr (options \<lparr> width := w \<rparr>) = (Inr options' :: fit_error + DisplayOptions)"
      by (rule bind_Inr)
    then show ?thesis
      using float_to_int_range by (auto simp: int_div_assign_float_def)
  next
    case False
    with s have "(case int_mul_assign_float (height options) ws of
        Inl e \<Rightarrow> Inl e | Inr h \<Rightarrow> Inr (options \<lparr> height := h \<rparr>)) = Inr options'"
      by (simp add: stretch_box_def)
    then obtain h where "int_mul_assign_float (height options) ws = Inr h"
      "Inr (options \<lparr> height := h \<rparr>) = (Inr options' :: fit_error + DisplayOptions)"
      by (rule bind_Inr)
    with o(1) show ?thesis by auto
  qed
  show "height options' \<le> INT_MAX"
  proof (cases "fp_less (Finite 1) ws")
    case True
    with s have "(case int_div_assign_float (width options) ws of
        Inl e \<Rightarrow> Inl e | Inr w \<Rightarrow> Inr (options \<lparr> width := w \<rparr>)) = Inr options'"
      by (simp add: stretch_box_def)
    then obtain w where "int_div_assign_float (width options) ws = Inr w"
      "Inr (options \<lparr> width := w \<rparr>) = (Inr options' :: fit_error + DisplayOptions)"
      by (rule bind_Inr)
    with o(2) show ?thesis by auto
  next
    case False
    with s have "(case int_mul_assign_float (height options) ws of
        Inl e \<Rightarrow> Inl e | Inr h \<Rightarrow> Inr (options \<lparr> height := h \<rparr>)) = Inr options'"
      by (simp add: stretch_box_def)
    then obtain h where "int_mul_assign_float (height options) ws = Inr h"
      "Inr (options \<lparr> height := h \<rparr>) = (Inr options' :: fit_error + DisplayOptions)"
      by (rule bind_Inr)
    then show ?thesis
      using float_to_int_range by (auto simp: int_mul_assign_float_def)
  qed
qed

lemma scaled_pair_range:
  assumes "(case scaled f img_width of
              Inl e \<Rightarrow> Inl e
            | Inr tw \<Rightarrow> (case scaled f img_height of
                            Inl e \<Rightarrow> Inl e
                          | Inr th \<Rightarrow> Inr (tw, th))) = Inr t0"
  shows "fst t0 \<le> INT_MAX" "snd t0 \<le> INT_MAX"
proof -
  from assms obtain tw where tw: "scaled f img_width = Inr tw"
    and r: "(case scaled f img_height of Inl e \<Rightarrow> Inl e | Inr th \<Rightarrow> Inr (tw, th)) = Inr t0"
    by (rule bind_Inr)
  from r obtain th where th: "scaled f img_height = Inr th"
    and t0: "Inr (tw, th) = (Inr t0 :: fit_error + int \<times> int)"
    by (rule bind_Inr)
  from t0 have "t0 = (tw, th)" by simp
  with scaled_range [OF tw] scaled_range [OF th]
  show "fst t0 \<le> INT_MAX" "snd t0 \<le> INT_MAX" by simp_all
qed

lemma scale_by_policy_range:
  assumes p: "scale_by_policy options w_fraction h_fraction img_width img_height = Inr t0"
    and o: "width options \<le> INT_MAX" "height options \<le> INT_MAX"
  shows "fst t0 \<le> INT_MAX \<and> snd t0 \<le> INT_MAX"
proof -
  consider (both) "fill_width options \<and> fill_height options"
    | (fh) "\<not> (fill_width options \<and> fill_height options)" "fill_height options"
    | (fw) "\<not> (fill_width options \<and> fill_height options)" "\<not> fill_height options"
        "fill_width options"
    | (none) "\<not> fill_height options" "\<not> fill_width options"
    by blast
  then show ?thesis
  proof cases
    case both
    with p have "(case scaled (if fp_less h_fraction w_fraction then w_fraction else h_fraction)
                    img_width of
              Inl e \<Rightarrow> Inl e
            | Inr tw \<Rightarrow> (case scaled (if fp_less h_fraction w_fraction then w_fraction
                                     else h_fraction) img_height of
                            Inl e \<Rightarrow> Inl e
                          | Inr th \<Rightarrow> Inr (tw, th))) = Inr t0"
      by (simp add: scale_by_policy_def Let_def)
    from scaled_pair_range [OF this] show ?thesis by simp
  next
    case fh
    with p have "(case scaled h_fraction img_width of
              Inl e \<Rightarrow> Inl e | Inr tw \<Rightarrow> Inr (tw, height options)) = Inr t0"
      by (simp add: scale_by_policy_def)
    then obtain tw where tw: "scaled h_fraction img_width = Inr tw"
      and t0: "Inr (tw, height options) = (Inr t0 :: fit_error + int \<times> int)"
      by (rule bind_Inr)
    from t0 have "t0 = (tw, height options)" by simp
    with scaled_range [OF tw] o(2) show ?thesis by simp
  next
    case fw
    with p have "(case scaled w_fraction img_height of
              Inl e \<Rightarrow> Inl e | Inr th \<Rightarrow> Inr (width options, th)) = Inr t0"
      by (simp add: scale_by_policy_def)
    then obtain th where th: "scaled w_fraction img_height = Inr th"
      and t0: "Inr (width options, th) = (Inr t0 :: fit_error + int \<times> int)"
      by (rule bind_Inr)
    from t0 have "t0 = (width options, th)" by simp
    with scaled_range [OF th] o(1) show ?thesis by simp
  next
    case none
    with p have "(case scaled (if fp_less w_fraction h_fraction then w_fraction else h_fraction)
                    img_width of
              Inl e \<Rightarrow> Inl e
            | Inr tw \<Rightarrow> (case scaled (if fp_less w_fraction h_fraction then w_fraction
                                     else h_fraction) img_height of
                            Inl e \<Rightarrow> Inl e
                          | Inr th \<Rightarrow> Inr (tw, th))) = Inr t0"
      by (simp add: scale_by_policy_def Let_def)
    from scaled_pair_range [OF this] show ?thesis by simp
  qed
qed

lemma restretch_range:
  assumes r: "restretch ws t0 = Inr t1" and t: "fst t0 \<le> INT_MAX" "snd t0 \<le> INT_MAX"
  shows "fst t1 \<le> INT_MAX \<and> snd t1 \<le> INT_MAX"
proof (cases "fp_less (Finite 1) ws")
  case True
  with r have "(case int_mul_assign_float (fst t0) ws of
      Inl e \<Rightarrow> Inl e | Inr tw \<Rightarrow> Inr (tw, snd t0)) = Inr t1"
    by (simp add: restretch_def)
  then obtain tw where tw: "int_mul_assign_float (fst t0) ws = Inr tw"
    and t1: "Inr (tw, snd t0) = (Inr t1 :: fit_error + int \<times> int)"
    by (rule bind_Inr)
  from t1 have "t1 = (tw, snd t0)" by simp
  with float_to_int_range [OF tw [unfolded int_mul_assign_float_def]] t(2)
  show ?thesis by simp
next
  case False
  with r have "(case int_div_assign_float (snd t0) ws of
      Inl e \<Rightarrow> Inl e | Inr th \<Rightarrow> Inr (fst t0, th)) = Inr t1"
    by (simp add: restretch_def)
  then obtain th where th: "int_div_assign_float (snd t0) ws = Inr th"
    and t1: "Inr (fst t0, th) = (Inr t1 :: fit_error + int \<times> int)"
    by (rule bind_Inr)
  from t1 have "t1 = (fst t0, th)" by simp
  with float_to_int_range [OF th [unfolded int_div_assign_float_def]] t(1)
  show ?thesis by simp
qed

lemma int_div_cell_le:
  assumes "0 < c" "c \<le> 2"
  shows "int_div x c * c \<le> max x 0"
proof -
  have c: "c = 1 \<or> c = 2" using assms by auto
  show ?thesis
  proof (cases "0 \<le> x")
    case True
    with int_div_small_cell(2) [OF True assms] show ?thesis by simp
  next
    case False
    then have "int_div x c = - (\<bar>x\<bar> div c)"
      using c by (auto simp: int_div_def sgn_if)
    moreover have "0 \<le> \<bar>x\<bar> div c" using c by auto
    ultimately have "int_div x c * c \<le> 0" using assms(1) by (simp add: mult_le_0_iff)
    then show ?thesis by simp
  qed
qed

lemma quantized_int_range:
  assumes "fst t1 \<le> INT_MAX" "snd t1 \<le> INT_MAX"
  shows "fst (at_least_one (quantize_to_cells options t1)) \<le> INT_MAX"
    and "snd (at_least_one (quantize_to_cells options t1)) \<le> INT_MAX"
proof -
  have m: "1 \<le> INT_MAX" by (simp add: INT_MAX_def)
  have "fst (quantize_to_cells options t1) \<le> max (fst t1) 0"
    using int_div_cell_le [of "cell_x_px options" "fst t1"]
    by (simp add: quantize_to_cells_def)
  with assms(1) m show "fst (at_least_one (quantize_to_cells options t1)) \<le> INT_MAX"
    by (auto simp: at_least_one_def max_def split: if_splits)
  have "snd (quantize_to_cells options t1) \<le> max (snd t1) 0"
    using int_div_cell_le [of "cell_y_px options" "snd t1"]
    by (simp add: quantize_to_cells_def)
  with assms(2) m show "snd (at_least_one (quantize_to_cells options t1)) \<le> INT_MAX"
    by (auto simp: at_least_one_def max_def split: if_splits)
qed

text \<open>
  The factor \<open>target / divisor / img\<close> of the integer upscaling: the two \<open>int\<close> are
  converted to \<open>float\<close>, the product with \<open>1.0f\<close> and the division by \<open>aspect_correct\<close>
  (1 or 2) are exact, and the last division is rounded.
\<close>

lemma divide_le_self:
  fixes x y :: rat
  assumes "0 \<le> x" "1 \<le> y"
  shows "x / y \<le> x"
proof -
  have "x * 1 \<le> x * y" by (rule mult_left_mono [OF assms(2,1)])
  then show ?thesis using assms(2) by (simp add: divide_le_eq)
qed

lemma upscale_factor:
  assumes t: "1 \<le> t" "t \<le> INT_MAX" and i: "1 \<le> i" "i \<le> INT_MAX"
    and c: "c = 1 \<or> c = 2"
  shows "fp_div Binary32
           (fp_div Binary32 (fp_mul Binary32 (Finite 1) (int_to_float t)) (Finite c))
           (int_to_float i)
         = Finite (round_mag Binary32
             (round_mag Binary32 (of_int t) / c / round_mag Binary32 (of_int i)))"
proof -
  define A where "A = round_mag Binary32 (of_int t)"
  define I where "I = round_mag Binary32 (of_int i)"
  note st = source_to_float(1-3) [OF t, folded A_def]
    and si = source_to_float(1-3) [OF i, folded I_def]
  have t1: "(1::rat) \<le> of_int t" using t(1) by simp
  have idem: "round_mag Binary32 A = A" unfolding A_def by (rule rm32_idem [OF t1])
  have half: "round_mag Binary32 (A / 2) = A / 2" unfolding A_def by (rule rm32_halved [OF t1])
  have A0: "0 \<le> A" using st(2) by simp
  have "fp_mul Binary32 (Finite 1) (Finite A) = Finite (round_mag Binary32 (1 * A))"
    by (rule fp_mul_small) (use A0 st(3) in simp_all)
  then have e2: "fp_mul Binary32 (Finite 1) (Finite A) = Finite A"
    by (simp add: idem)
  have c0: "0 < c" "1 \<le> c" using c by auto
  have q0: "0 \<le> A / c" using A0 c0(1) by simp
  have q1: "A / c \<le> A" by (rule divide_le_self [OF A0 c0(2)])
  have "A / c \<le> 2147483648" using q1 st(3) by linarith
  from fp_div_small [OF A0 c0(1) this]
  have "fp_div Binary32 (Finite A) (Finite c) = Finite (round_mag Binary32 (A / c))" .
  moreover have "round_mag Binary32 (A / c) = A / c"
    using c
  proof
    assume "c = 1"
    then show ?thesis by (simp add: idem)
  next
    assume "c = 2"
    then show ?thesis by (simp only: half)
  qed
  ultimately have e3: "fp_div Binary32 (Finite A) (Finite c) = Finite (A / c)" by simp
  have I0: "0 < I" "1 \<le> I" using si(2) by simp_all
  have "A / c / I \<le> A / c" by (rule divide_le_self [OF q0 I0(2)])
  with q1 st(3) have "A / c / I \<le> 2147483648" by linarith
  from fp_div_small [OF q0 I0(1) this]
  have "fp_div Binary32 (Finite (A / c)) (Finite I)
      = Finite (round_mag Binary32 (A / c / I))" .
  then have "fp_div Binary32
           (fp_div Binary32 (fp_mul Binary32 (Finite 1) (int_to_float t)) (Finite c))
           (int_to_float i)
      = Finite (round_mag Binary32 (A / c / I))"
    by (simp only: st(1) si(1) e2 e3)
  then show ?thesis by (simp only: A_def I_def)
qed

lemma upscale_factor_height:
  assumes t: "1 \<le> t" "t \<le> INT_MAX" and i: "1 \<le> i" "i \<le> INT_MAX"
  shows "fp_div Binary32 (fp_mul Binary32 (Finite 1) (int_to_float t)) (int_to_float i)
         = Finite (round_mag Binary32
             (round_mag Binary32 (of_int t) / round_mag Binary32 (of_int i)))"
proof -
  define A where "A = round_mag Binary32 (of_int t)"
  define I where "I = round_mag Binary32 (of_int i)"
  note st = source_to_float(1-3) [OF t, folded A_def]
    and si = source_to_float(1-3) [OF i, folded I_def]
  have t1: "(1::rat) \<le> of_int t" using t(1) by simp
  have idem: "round_mag Binary32 A = A" unfolding A_def by (rule rm32_idem [OF t1])
  have A0: "0 \<le> A" using st(2) by simp
  have "fp_mul Binary32 (Finite 1) (Finite A) = Finite (round_mag Binary32 (1 * A))"
    by (rule fp_mul_small) (use A0 st(3) in simp_all)
  then have e2: "fp_mul Binary32 (Finite 1) (Finite A) = Finite A"
    by (simp add: idem)
  have I0: "0 < I" "1 \<le> I" using si(2) by simp_all
  have "A / I \<le> A" by (rule divide_le_self [OF A0 I0(2)])
  with st(3) have "A / I \<le> 2147483648" by linarith
  from fp_div_small [OF A0 I0(1) this]
  have "fp_div Binary32 (Finite A) (Finite I) = Finite (round_mag Binary32 (A / I))" .
  then have "fp_div Binary32 (fp_mul Binary32 (Finite 1) (int_to_float t)) (int_to_float i)
      = Finite (round_mag Binary32 (A / I))"
    by (simp only: st(1) si(1) e2)
  then show ?thesis by (simp only: A_def I_def)
qed

lemma smaller_factor_eval:
  assumes t: "1 \<le> fst t" "fst t \<le> INT_MAX" "1 \<le> snd t" "snd t \<le> INT_MAX"
    and d: "1 \<le> img_width" "img_width \<le> INT_MAX" "1 \<le> img_height" "img_height \<le> INT_MAX"
  shows "smaller_factor options img_width img_height t
         = Finite (min
             (round_mag Binary32
                (round_mag Binary32 (of_int (fst t)) / (if cell_x_px options = 2 then 2 else 1)
                 / round_mag Binary32 (of_int img_width)))
             (round_mag Binary32
                (round_mag Binary32 (of_int (snd t)) / round_mag Binary32 (of_int img_height))))"
proof -
  let ?c = "if cell_x_px options = 2 then 2 else 1 :: rat"
  have ac: "aspect_correct options = Finite ?c" by (simp add: aspect_correct_def)
  have c: "?c = 1 \<or> ?c = 2" by simp
  note w = upscale_factor [OF t(1,2) d(1,2) c]
  note h = upscale_factor_height [OF t(3,4) d(3,4)]
  show ?thesis
    by (simp only: smaller_factor_def Let_def ac w h min_fraction)
qed

subsection \<open>Results on the fit\<close>

text \<open>
  Claim C1, as stated, fails where the \<open>int\<close> arithmetic overflows: a source of width
  \<open>2\<^sup>3\<^sup>0\<close> in the double-wide mode takes the early return, and the doubled width is not an
  \<open>int\<close>.
\<close>

theorem short_circuit_overflow_counterexample:
  "CalcScaleToFitDisplay 1073741824 1
     (box_200 \<lparr> fill_width := True, fill_height := True, cell_x_px := 2 \<rparr>) False
   = Inl SignedOverflow"
  by code_simp

text \<open>
  Claim C1, amended. For a source and a box of 1 to 16384 in each dimension and a stretch
  that is not a NaN, \<open>CalcScaleToFitDisplay\<close> returns, and both target dimensions are at
  least 1; this covers the sources of 1 by 1 and of 1 by 10000. For any positive source
  dimensions, whenever the function returns (no \<open>int\<close> operation overflows and no
  conversion to \<open>int\<close> is out of range), both target dimensions are at least 1.
\<close>

theorem fit_result_at_least_one:
  "(1 \<le> img_width \<and> img_width \<le> INT_MAX \<and> 1 \<le> img_height \<and> img_height \<le> INT_MAX
      \<and> CalcScaleToFitDisplay img_width img_height orig rot = Inr r
    \<longrightarrow> 1 \<le> target_width r \<and> 1 \<le> target_height r)
   \<and> (1 \<le> img_width \<and> img_width \<le> 16384 \<and> 1 \<le> img_height \<and> img_height \<le> 16384
      \<and> 1 \<le> width orig \<and> width orig \<le> 16384 \<and> 1 \<le> height orig \<and> height orig \<le> 16384
      \<and> \<not> is_nan (width_stretch orig)
    \<longrightarrow> (\<exists>r'. CalcScaleToFitDisplay img_width img_height orig rot = Inr r'
             \<and> 1 \<le> target_width r' \<and> 1 \<le> target_height r'))"
proof -
  have total: "\<exists>r'. CalcScaleToFitDisplay img_width img_height orig rot = Inr r'
             \<and> 1 \<le> target_width r' \<and> 1 \<le> target_height r'"
    if d: "1 \<le> img_width" "img_width \<le> 16384" "1 \<le> img_height" "img_height \<le> 16384"
      and b: "1 \<le> width orig" "width orig \<le> 16384" "1 \<le> height orig" "height orig \<le> 16384"
      and n: "\<not> is_nan (width_stretch orig)"
  proof -
    from CalcScaleToFitDisplay_defined [OF d b n, of rot] obtain r'
      where r': "CalcScaleToFitDisplay img_width img_height orig rot = Inr r'" ..
    have "img_width \<le> INT_MAX" "img_height \<le> INT_MAX"
      using d by (simp_all add: INT_MAX_def)
    from result_at_least_one [OF d(1) this(1) d(3) this(2) r'] r' show ?thesis by blast
  qed
  show ?thesis
    using result_at_least_one [of img_width img_height orig rot r] total by blast
qed

theorem fit_result_at_least_one_witness:
  "CalcScaleToFitDisplay 1 10000 box_200 False
     = Inr \<lparr> target_width = 1, target_height = 200, needs_scaling = True \<rparr>
   \<and> (1::int) \<le> 16384 \<and> (10000::int) \<le> 16384 \<and> (10000::int) \<le> INT_MAX
   \<and> width box_200 = 200 \<and> height box_200 = 200 \<and> \<not> is_nan (width_stretch box_200)
   \<and> (\<exists>r'. CalcScaleToFitDisplay 1 10000 box_200 False = Inr r'
          \<and> 1 \<le> target_width r' \<and> 1 \<le> target_height r')"
proof -
  have e: "CalcScaleToFitDisplay 1 10000 box_200 False
     = Inr \<lparr> target_width = 1, target_height = 200, needs_scaling = True \<rparr>"
    by code_simp
  have b: "width box_200 = 200" "height box_200 = 200" "\<not> is_nan (width_stretch box_200)"
    by (simp_all add: box_200_def)
  from fit_result_at_least_one [of 1 10000 box_200 False
      "\<lparr> target_width = 1, target_height = 200, needs_scaling = True \<rparr>"] e b
  show ?thesis by (simp add: INT_MAX_def)
qed

text \<open>
  Claim C2, as stated, fails for the same overflow: with both fill flags set and
  \<open>upscale\<close> off the early return is taken, and for a source width of 2000000000 in the
  double-wide mode the doubled width is not an \<open>int\<close>.
\<close>

theorem short_circuit_doubling_counterexample:
  "\<not> upscale (box_200 \<lparr> fill_width := True, fill_height := True, cell_x_px := 2 \<rparr>)
   \<and> fill_height (box_200 \<lparr> fill_width := True, fill_height := True, cell_x_px := 2 \<rparr>)
   \<and> fill_width (box_200 \<lparr> fill_width := True, fill_height := True, cell_x_px := 2 \<rparr>)
   \<and> CalcScaleToFitDisplay 2000000000 3
         (box_200 \<lparr> fill_width := True, fill_height := True, cell_x_px := 2 \<rparr>) False
       = Inl SignedOverflow"
proof -
  have "CalcScaleToFitDisplay 2000000000 3
         (box_200 \<lparr> fill_width := True, fill_height := True, cell_x_px := 2 \<rparr>) False
       = Inl SignedOverflow"
    by code_simp
  then show ?thesis by (simp add: box_200_def)
qed

text \<open>
  Claim C2, amended. Let \<open>options\<close> be the working copy of the options after the rotation
  and the stretch of the box (steps 1 to 3), which exists when those steps stay within
  \<open>int\<close>. If \<open>upscale\<close> is off, and \<open>fill_height\<close> is set or the width fraction is
  greater than 1, and \<open>fill_width\<close> is set or the height fraction is greater than 1, then
  for positive source dimensions the result is the source dimensions with
  \<open>needs_scaling = false\<close>; except when \<open>cell_x_px\<close> is 2, where the width is doubled
  and \<open>needs_scaling = true\<close>, provided twice the source width is an \<open>int\<close>. The two
  examples of the specification are instances.
\<close>

theorem short_circuit_returns_source:
  assumes "0 < img_width" "0 < img_height"
    and "stretch_box (rotate_options orig rot)
           (clamp_width_stretch (width_stretch (rotate_options orig rot))) = Inr options"
    and "\<not> upscale orig"
    and "fill_height options \<or> fp_less (Finite 1) (width_fraction options img_width)"
    and "fill_width options \<or> fp_less (Finite 1) (height_fraction options img_height)"
    and "cell_x_px orig = 2 \<longrightarrow> 2 * img_width \<le> INT_MAX"
  shows "CalcScaleToFitDisplay img_width img_height orig rot
     = Inr (if cell_x_px orig = 2
            then \<lparr> target_width = 2 * img_width, target_height = img_height,
                   needs_scaling = True \<rparr>
            else \<lparr> target_width = img_width, target_height = img_height,
                   needs_scaling = False \<rparr>)"
proof -
  note flags = stretch_box_flags [OF assms(3)]
  have "no_scale_needed options (width_fraction options img_width)
      (height_fraction options img_height)"
    using assms(4,5,6) by (simp add: no_scale_needed_def flags)
  moreover have "cell_x_px options = cell_x_px orig"
    by (simp add: flags)
  ultimately show ?thesis
    using return_unscaled_result [of options img_width img_height] assms(1,7)
    by (simp add: CalcScaleToFitDisplay_cases [OF assms(3)])
qed

theorem short_circuit_returns_source_witness:
  "stretch_box (rotate_options box_200 False)
     (clamp_width_stretch (width_stretch (rotate_options box_200 False))) = Inr box_200
   \<and> \<not> upscale box_200
   \<and> fp_less (Finite 1) (width_fraction box_200 50)
   \<and> fp_less (Finite 1) (height_fraction box_200 50)
   \<and> CalcScaleToFitDisplay 50 50 box_200 False
       = Inr \<lparr> target_width = 50, target_height = 50, needs_scaling = False \<rparr>
   \<and> stretch_box (rotate_options (box_200 \<lparr> cell_x_px := 2 \<rparr>) False)
       (clamp_width_stretch (width_stretch (rotate_options (box_200 \<lparr> cell_x_px := 2 \<rparr>) False)))
       = Inr (box_200 \<lparr> cell_x_px := 2 \<rparr>)
   \<and> 2 * 50 \<le> INT_MAX
   \<and> CalcScaleToFitDisplay 50 50 (box_200 \<lparr> cell_x_px := 2 \<rparr>) False
       = Inr \<lparr> target_width = 100, target_height = 50, needs_scaling = True \<rparr>"
proof -
  have b1: "stretch_box (rotate_options box_200 False)
     (clamp_width_stretch (width_stretch (rotate_options box_200 False))) = Inr box_200"
    by code_simp
  have b2: "stretch_box (rotate_options (box_200 \<lparr> cell_x_px := 2 \<rparr>) False)
       (clamp_width_stretch (width_stretch (rotate_options (box_200 \<lparr> cell_x_px := 2 \<rparr>) False)))
       = Inr (box_200 \<lparr> cell_x_px := 2 \<rparr>)"
    by code_simp
  have f: "fp_less (Finite 1) (width_fraction box_200 50)"
    "fp_less (Finite 1) (height_fraction box_200 50)"
    "fp_less (Finite 1) (width_fraction (box_200 \<lparr> cell_x_px := 2 \<rparr>) 50)"
    "fp_less (Finite 1) (height_fraction (box_200 \<lparr> cell_x_px := 2 \<rparr>) 50)"
    by code_simp+
  have u: "\<not> upscale box_200" "\<not> upscale (box_200 \<lparr> cell_x_px := 2 \<rparr>)"
    "cell_x_px box_200 \<noteq> 2" "cell_x_px (box_200 \<lparr> cell_x_px := 2 \<rparr>) = 2"
    by (simp_all add: box_200_def)
  have m: "(2::int) * 50 \<le> INT_MAX" by (simp add: INT_MAX_def)
  from short_circuit_returns_source [of 50 50 box_200 False box_200, OF _ _ b1 u(1)] f(1,2) u(3)
  have r1: "CalcScaleToFitDisplay 50 50 box_200 False
       = Inr \<lparr> target_width = 50, target_height = 50, needs_scaling = False \<rparr>"
    by simp
  from short_circuit_returns_source [of 50 50 "box_200 \<lparr> cell_x_px := 2 \<rparr>" False
      "box_200 \<lparr> cell_x_px := 2 \<rparr>", OF _ _ b2 u(2)] f(3,4) u(4) m
  have r2: "CalcScaleToFitDisplay 50 50 (box_200 \<lparr> cell_x_px := 2 \<rparr>) False
       = Inr \<lparr> target_width = 100, target_height = 50, needs_scaling = True \<rparr>"
    by simp
  from b1 b2 f(1,2) u(1) m r1 r2 show ?thesis by simp
qed

text \<open>
  Claim C3, as stated, fails in three ways: the early return gives the source dimensions
  as they are (51 by 51 with cells of height 2), the clamp of step 9 turns a target of 0
  into 1, and the integer upscaling gives a multiple of the source height (9 for a source
  of 3 by 3).
\<close>

theorem cell_quantization_counterexample:
  "CalcScaleToFitDisplay 51 51 (box_200 \<lparr> cell_x_px := 1, cell_y_px := 2 \<rparr>) False
     = Inr \<lparr> target_width = 51, target_height = 51, needs_scaling = False \<rparr>
   \<and> (51::int) mod 2 = 1
   \<and> CalcScaleToFitDisplay 1000 1 (box_200 \<lparr> cell_x_px := 2, cell_y_px := 2 \<rparr>) False
     = Inr \<lparr> target_width = 200, target_height = 1, needs_scaling = True \<rparr>
   \<and> (1::int) mod 2 = 1
   \<and> CalcScaleToFitDisplay 3 3
        (box_200 \<lparr> width := 10, height := 10, upscale := True, upscale_integer := True,
                   cell_x_px := 1, cell_y_px := 2 \<rparr>) False
     = Inr \<lparr> target_width = 9, target_height = 9, needs_scaling = True \<rparr>
   \<and> (9::int) mod 2 = 1"
proof -
  have "CalcScaleToFitDisplay 51 51 (box_200 \<lparr> cell_x_px := 1, cell_y_px := 2 \<rparr>) False
     = Inr \<lparr> target_width = 51, target_height = 51, needs_scaling = False \<rparr>"
    by code_simp
  moreover have "CalcScaleToFitDisplay 1000 1 (box_200 \<lparr> cell_x_px := 2, cell_y_px := 2 \<rparr>) False
     = Inr \<lparr> target_width = 200, target_height = 1, needs_scaling = True \<rparr>"
    by code_simp
  moreover have "CalcScaleToFitDisplay 3 3
        (box_200 \<lparr> width := 10, height := 10, upscale := True, upscale_integer := True,
                   cell_x_px := 1, cell_y_px := 2 \<rparr>) False
     = Inr \<lparr> target_width = 9, target_height = 9, needs_scaling = True \<rparr>"
    by code_simp
  ultimately show ?thesis by simp
qed

text \<open>
  Claim C3, amended. For positive source dimensions and cell sizes of 1 or 2, whenever the
  function returns: the target width is a multiple of \<open>cell_x_px\<close> or is 1; and when the
  early return is not taken, the target height is a multiple of \<open>cell_y_px\<close> or is 1,
  unless the integer upscaling has recomputed the target: then \<open>upscale_integer\<close> is set
  and the target is \<open>k\<close> times the source for an integer \<open>k \<ge> 1\<close> (the width
  times \<open>aspect_correct\<close> in addition). So the height is a multiple of \<open>cell_y_px\<close> or
  is 1 whenever \<open>upscale_integer\<close> is off or the target is smaller than the source in
  one dimension.
\<close>

theorem targets_are_whole_cells:
  assumes dims: "1 \<le> img_width" "img_width \<le> INT_MAX" "1 \<le> img_height" "img_height \<le> INT_MAX"
    and cx: "cell_x_px orig = 1 \<or> cell_x_px orig = 2"
    and cy: "cell_y_px orig = 1 \<or> cell_y_px orig = 2"
    and box: "stretch_box (rotate_options orig rot)
           (clamp_width_stretch (width_stretch (rotate_options orig rot))) = Inr options"
    and res: "CalcScaleToFitDisplay img_width img_height orig rot = Inr r"
  shows "(target_width r mod cell_x_px orig = 0 \<or> target_width r = 1)
       \<and> (\<not> no_scale_needed options (width_fraction options img_width)
              (height_fraction options img_height)
          \<longrightarrow> target_height r mod cell_y_px orig = 0 \<or> target_height r = 1
              \<or> upscale_integer orig
                \<and> (\<exists>k. 1 \<le> k
                      \<and> target_width r = (if cell_x_px orig = 2 then 2 else 1) * k * img_width
                      \<and> target_height r = k * img_height))
       \<and> (\<not> no_scale_needed options (width_fraction options img_width)
              (height_fraction options img_height)
          \<and> (\<not> upscale_integer orig \<or> target_width r < img_width
              \<or> target_height r < img_height)
          \<longrightarrow> target_height r mod cell_y_px orig = 0 \<or> target_height r = 1)"
proof (cases "no_scale_needed options (width_fraction options img_width)
              (height_fraction options img_height)")
  case True
  note flags = stretch_box_flags [OF box]
  from res True have "return_unscaled options img_width img_height = Inr r"
    by (simp add: CalcScaleToFitDisplay_cases [OF box])
  from return_unscaled_inverse [OF this] cx True show ?thesis
    by (auto simp: flags)
next
  case False
  note flags = stretch_box_flags [OF box]
  let ?c = "if cell_x_px orig = 2 then 2 else 1 :: int"
  from scale_to_fit_result [OF dims box False res]
  obtain t0 t1 t where t: "t = at_least_one (quantize_to_cells options t1)"
    and c: "if upscale_integer orig \<and> img_width < fst t \<and> img_height < snd t
                \<and> fp_less (Finite 1) (smaller_factor options img_width img_height t)
             then \<exists>s. smaller_factor options img_width img_height t = Finite s \<and> 1 < s
                    \<and> target_width r = ?c * \<lfloor>s\<rfloor> * img_width
                    \<and> target_height r = \<lfloor>s\<rfloor> * img_height
             else target_width r = fst t \<and> target_height r = snd t"
    by blast
  have cx': "cell_x_px options = 1 \<or> cell_x_px options = 2"
    and cy': "cell_y_px options = 1 \<or> cell_y_px options = 2"
    using cx cy by (simp_all add: flags)
  have w: "fst t mod cell_x_px orig = 0 \<or> fst t = 1"
    using quantized_width [OF cx' cy', of t1] by (simp add: t flags)
  have h: "snd t mod cell_y_px orig = 0 \<or> snd t = 1"
    using quantized_height [OF cx' cy', of t1] by (simp add: t flags)
  have tw: "target_width r mod cell_x_px orig = 0 \<or> target_width r = 1"
    using c w cx by (auto split: if_splits)
  show ?thesis
  proof (cases "upscale_integer orig \<and> img_width < fst t \<and> img_height < snd t
                \<and> fp_less (Finite 1) (smaller_factor options img_width img_height t)")
    case fired: True
    with c have "\<exists>s. smaller_factor options img_width img_height t = Finite s \<and> 1 < s
                    \<and> target_width r = ?c * \<lfloor>s\<rfloor> * img_width
                    \<and> target_height r = \<lfloor>s\<rfloor> * img_height"
      by (simp only: if_True)
    then obtain s where "smaller_factor options img_width img_height t = Finite s"
      and s: "1 < s"
      and rw: "target_width r = ?c * \<lfloor>s\<rfloor> * img_width"
      and rh: "target_height r = \<lfloor>s\<rfloor> * img_height"
      by (elim exE conjE)
    have k: "1 \<le> \<lfloor>s\<rfloor>" using s by (simp add: le_floor_iff)
    have "1 * img_height \<le> \<lfloor>s\<rfloor> * img_height"
      by (rule mult_right_mono [OF k]) (use dims in simp)
    then have hge: "img_height \<le> target_height r" by (simp add: rh)
    have "1 * img_width \<le> \<lfloor>s\<rfloor> * img_width"
      by (rule mult_right_mono [OF k]) (use dims in simp)
    moreover have "0 \<le> \<lfloor>s\<rfloor> * img_width" using k dims by simp
    ultimately have "img_width \<le> ?c * (\<lfloor>s\<rfloor> * img_width)" by auto
    then have wge: "img_width \<le> target_width r" by (simp add: rw mult.assoc)
    have "upscale_integer orig
        \<and> (\<exists>k. 1 \<le> k \<and> target_width r = ?c * k * img_width
              \<and> target_height r = k * img_height)"
      using fired k rw rh by blast
    with tw False wge hge show ?thesis by auto
  next
    case False
    with c have "target_height r = snd t" by simp
    with h have "target_height r mod cell_y_px orig = 0 \<or> target_height r = 1" by simp
    with tw show ?thesis by blast
  qed
qed

theorem targets_are_whole_cells_witness:
  "(1::int) \<le> 400 \<and> (400::int) \<le> INT_MAX \<and> (1::int) \<le> 202 \<and> (202::int) \<le> INT_MAX
   \<and> cell_x_px (box_200 \<lparr> upscale_integer := True, cell_x_px := 2, cell_y_px := 2 \<rparr>) = 2
   \<and> cell_y_px (box_200 \<lparr> upscale_integer := True, cell_x_px := 2, cell_y_px := 2 \<rparr>) = 2
   \<and> upscale_integer (box_200 \<lparr> upscale_integer := True, cell_x_px := 2, cell_y_px := 2 \<rparr>)
   \<and> stretch_box
        (rotate_options (box_200 \<lparr> upscale_integer := True, cell_x_px := 2, cell_y_px := 2 \<rparr>)
           False)
        (clamp_width_stretch (width_stretch (rotate_options
           (box_200 \<lparr> upscale_integer := True, cell_x_px := 2, cell_y_px := 2 \<rparr>) False)))
       = Inr (box_200 \<lparr> upscale_integer := True, cell_x_px := 2, cell_y_px := 2 \<rparr>)
   \<and> \<not> no_scale_needed (box_200 \<lparr> upscale_integer := True, cell_x_px := 2, cell_y_px := 2 \<rparr>)
         (width_fraction
            (box_200 \<lparr> upscale_integer := True, cell_x_px := 2, cell_y_px := 2 \<rparr>) 400)
         (height_fraction
            (box_200 \<lparr> upscale_integer := True, cell_x_px := 2, cell_y_px := 2 \<rparr>) 202)
   \<and> scale_by_policy (box_200 \<lparr> upscale_integer := True, cell_x_px := 2, cell_y_px := 2 \<rparr>)
         (width_fraction
            (box_200 \<lparr> upscale_integer := True, cell_x_px := 2, cell_y_px := 2 \<rparr>) 400)
         (height_fraction
            (box_200 \<lparr> upscale_integer := True, cell_x_px := 2, cell_y_px := 2 \<rparr>) 202)
         400 202 = Inr (200, 101)
   \<and> quantize_to_cells (box_200 \<lparr> upscale_integer := True, cell_x_px := 2, cell_y_px := 2 \<rparr>)
         (200, 101) = (200, 100)
   \<and> CalcScaleToFitDisplay 400 202
        (box_200 \<lparr> upscale_integer := True, cell_x_px := 2, cell_y_px := 2 \<rparr>) False
       = Inr \<lparr> target_width = 200, target_height = 100, needs_scaling = True \<rparr>
   \<and> (200::int) < 400
   \<and> (200::int) mod 2 = 0 \<and> (100::int) mod 2 = 0"
proof -
  let ?o = "box_200 \<lparr> upscale_integer := True, cell_x_px := 2, cell_y_px := 2 \<rparr>"
  have b: "stretch_box (rotate_options ?o False)
       (clamp_width_stretch (width_stretch (rotate_options ?o False))) = Inr ?o"
    by code_simp
  have r: "CalcScaleToFitDisplay 400 202 ?o False
       = Inr \<lparr> target_width = 200, target_height = 100, needs_scaling = True \<rparr>"
    by code_simp
  have n: "\<not> no_scale_needed ?o (width_fraction ?o 400) (height_fraction ?o 202)"
    by code_simp
  have p: "scale_by_policy ?o (width_fraction ?o 400) (height_fraction ?o 202) 400 202
      = Inr (200, 101)"
    by code_simp
  have q: "quantize_to_cells ?o (200, 101) = (200, 100)"
    by code_simp
  have c: "cell_x_px ?o = 2" "cell_y_px ?o = 2" "upscale_integer ?o"
    by (simp_all add: box_200_def)
  have m: "(400::int) \<le> INT_MAX" "(202::int) \<le> INT_MAX" by (simp_all add: INT_MAX_def)
  from targets_are_whole_cells [of 400 202 ?o False ?o, OF _ m(1) _ m(2) _ _ b r] c n
  have "(200::int) mod 2 = 0 \<and> (100::int) mod 2 = 0" by simp
  with b r n c m p q show ?thesis by simp
qed

text \<open>
  Claim C4, as stated, fails: the code compares the factor with 1 before it is floored.
  For a source of 10 by 10 and a target of 15 by 15 the factor is 1.5, the code recomputes
  the target as 1 times the source, 10 by 10, where the wording of the specification
  (\<open>integer_upscale_spec\<close>) leaves 15 by 15.
\<close>

theorem integer_upscale_counterexample:
  "integer_upscale
     (box_200 \<lparr> width := 15, height := 15, upscale := True, upscale_integer := True \<rparr>)
     10 10 (15, 15) = Inr (10, 10)
   \<and> integer_upscale_spec
     (box_200 \<lparr> width := 15, height := 15, upscale := True, upscale_integer := True \<rparr>)
     10 10 (15, 15) = Inr (15, 15)
   \<and> CalcScaleToFitDisplay 10 10
     (box_200 \<lparr> width := 15, height := 15, upscale := True, upscale_integer := True \<rparr>) False
     = Inr \<lparr> target_width = 10, target_height = 10, needs_scaling = False \<rparr>"
proof -
  have "integer_upscale
     (box_200 \<lparr> width := 15, height := 15, upscale := True, upscale_integer := True \<rparr>)
     10 10 (15, 15) = Inr (10, 10)"
    by code_simp
  moreover have "integer_upscale_spec
     (box_200 \<lparr> width := 15, height := 15, upscale := True, upscale_integer := True \<rparr>)
     10 10 (15, 15) = Inr (15, 15)"
    by code_simp
  moreover have "CalcScaleToFitDisplay 10 10
     (box_200 \<lparr> width := 15, height := 15, upscale := True, upscale_integer := True \<rparr>) False
     = Inr \<lparr> target_width = 10, target_height = 10, needs_scaling = False \<rparr>"
    by code_simp
  ultimately show ?thesis by simp
qed

text \<open>
  Claim C4, amended. When the early return is not taken and the function returns, let \<open>t\<close>
  be the target after the policy, the stretch, the cell quantization and the clamp (steps
  6 to 9). In \<open>float\<close>, where an \<open>int\<close> is rounded when it is converted and a quotient
  is rounded, \<open>wf\<close> is the width of \<open>t\<close> divided by \<open>aspect_correct\<close> (2 if
  \<open>cell_x_px\<close> is 2, else 1) and by the source width, and \<open>hf\<close> is the height of \<open>t\<close>
  divided by the source height. If \<open>upscale_integer\<close> is set, both components of \<open>t\<close>
  exceed the source dimensions and the smaller of \<open>wf\<close> and \<open>hf\<close>, not floored, is
  greater than 1, the result is the floor of that factor times the source dimension, the
  width times \<open>aspect_correct\<close> in addition; otherwise the result is \<open>t\<close>.
\<close>

theorem integer_upscale_tests_unfloored_factor:
  assumes dims: "1 \<le> img_width" "img_width \<le> INT_MAX" "1 \<le> img_height" "img_height \<le> INT_MAX"
    and range: "width orig \<le> INT_MAX" "height orig \<le> INT_MAX"
    and box: "stretch_box (rotate_options orig rot)
           (clamp_width_stretch (width_stretch (rotate_options orig rot))) = Inr options"
    and scale: "\<not> no_scale_needed options (width_fraction options img_width)
              (height_fraction options img_height)"
    and res: "CalcScaleToFitDisplay img_width img_height orig rot = Inr r"
  shows "\<exists>t0 t1 t wf hf.
           scale_by_policy options (width_fraction options img_width)
             (height_fraction options img_height) img_width img_height = Inr t0
         \<and> restretch (clamp_width_stretch (width_stretch (rotate_options orig rot))) t0 = Inr t1
         \<and> t = at_least_one (quantize_to_cells options t1)
         \<and> wf = round_mag Binary32
                  (round_mag Binary32 (of_int (fst t)) / (if cell_x_px orig = 2 then 2 else 1)
                   / round_mag Binary32 (of_int img_width))
         \<and> hf = round_mag Binary32
                  (round_mag Binary32 (of_int (snd t)) / round_mag Binary32 (of_int img_height))
         \<and> (if upscale_integer orig \<and> img_width < fst t \<and> img_height < snd t
                \<and> 1 < min wf hf
             then target_width r
                    = (if cell_x_px orig = 2 then 2 else 1) * \<lfloor>min wf hf\<rfloor> * img_width
                \<and> target_height r = \<lfloor>min wf hf\<rfloor> * img_height
             else target_width r = fst t \<and> target_height r = snd t)"
proof -
  note flags = stretch_box_flags [OF box]
  from scale_to_fit_result [OF dims box scale res]
  obtain t0 t1 t where
    t0: "scale_by_policy options (width_fraction options img_width)
             (height_fraction options img_height) img_width img_height = Inr t0"
    and t1: "restretch (clamp_width_stretch (width_stretch (rotate_options orig rot))) t0 = Inr t1"
    and t: "t = at_least_one (quantize_to_cells options t1)"
    and c: "if upscale_integer orig \<and> img_width < fst t \<and> img_height < snd t
                \<and> fp_less (Finite 1) (smaller_factor options img_width img_height t)
             then \<exists>s. smaller_factor options img_width img_height t = Finite s \<and> 1 < s
                    \<and> target_width r = (if cell_x_px orig = 2 then 2 else 1) * \<lfloor>s\<rfloor> * img_width
                    \<and> target_height r = \<lfloor>s\<rfloor> * img_height
             else target_width r = fst t \<and> target_height r = snd t"
    by blast
  have ro: "width (rotate_options orig rot) \<le> INT_MAX" "height (rotate_options orig rot) \<le> INT_MAX"
    using range by (simp_all add: rotate_options_dims)
  note o = stretch_box_range [OF box ro]
  from scale_by_policy_range [OF t0 o] have r0: "fst t0 \<le> INT_MAX" "snd t0 \<le> INT_MAX"
    by simp_all
  from restretch_range [OF t1 r0] have r1: "fst t1 \<le> INT_MAX" "snd t1 \<le> INT_MAX"
    by simp_all
  have tr: "1 \<le> fst t" "fst t \<le> INT_MAX" "1 \<le> snd t" "snd t \<le> INT_MAX"
    unfolding t by (rule at_least_one_ge quantized_int_range [OF r1])+
  define wf where "wf = round_mag Binary32
                  (round_mag Binary32 (of_int (fst t)) / (if cell_x_px orig = 2 then 2 else 1)
                   / round_mag Binary32 (of_int img_width))"
  define hf where "hf = round_mag Binary32
                  (round_mag Binary32 (of_int (snd t)) / round_mag Binary32 (of_int img_height))"
  have cxo: "cell_x_px options = cell_x_px orig" by (simp add: flags)
  have sf: "smaller_factor options img_width img_height t = Finite (min wf hf)"
    using smaller_factor_eval [OF tr dims, of options] by (simp only: wf_def hf_def cxo)
  have "if upscale_integer orig \<and> img_width < fst t \<and> img_height < snd t \<and> 1 < min wf hf
        then target_width r
               = (if cell_x_px orig = 2 then 2 else 1) * \<lfloor>min wf hf\<rfloor> * img_width
           \<and> target_height r = \<lfloor>min wf hf\<rfloor> * img_height
        else target_width r = fst t \<and> target_height r = snd t"
  proof (cases "upscale_integer orig \<and> img_width < fst t \<and> img_height < snd t
      \<and> 1 < min wf hf")
    case True
    then have "upscale_integer orig \<and> img_width < fst t \<and> img_height < snd t
                \<and> fp_less (Finite 1) (smaller_factor options img_width img_height t)"
      by (simp add: sf)
    with c have "\<exists>s. smaller_factor options img_width img_height t = Finite s \<and> 1 < s
                    \<and> target_width r = (if cell_x_px orig = 2 then 2 else 1) * \<lfloor>s\<rfloor> * img_width
                    \<and> target_height r = \<lfloor>s\<rfloor> * img_height"
      by (simp only: if_True)
    then obtain s where "smaller_factor options img_width img_height t = Finite s"
      and "1 < s"
      and "target_width r = (if cell_x_px orig = 2 then 2 else 1) * \<lfloor>s\<rfloor> * img_width"
      and "target_height r = \<lfloor>s\<rfloor> * img_height"
      by (elim exE conjE)
    with sf have "target_width r
               = (if cell_x_px orig = 2 then 2 else 1) * \<lfloor>min wf hf\<rfloor> * img_width
           \<and> target_height r = \<lfloor>min wf hf\<rfloor> * img_height"
      by simp
    then show ?thesis unfolding if_P [OF True] .
  next
    case False
    then have "\<not> (upscale_integer orig \<and> img_width < fst t \<and> img_height < snd t
                \<and> fp_less (Finite 1) (smaller_factor options img_width img_height t))"
      by (simp add: sf)
    with c have "target_width r = fst t \<and> target_height r = snd t"
      by (simp only: if_False)
    then show ?thesis unfolding if_not_P [OF False] .
  qed
  with t0 t1 t wf_def hf_def show ?thesis by blast
qed

theorem integer_upscale_tests_unfloored_factor_witness:
  "(1::int) \<le> 10 \<and> (10::int) \<le> INT_MAX
   \<and> width (box_200 \<lparr> width := 50, height := 50, upscale := True, upscale_integer := True,
                 cell_x_px := 2, cell_y_px := 1 \<rparr>) \<le> INT_MAX
   \<and> height (box_200 \<lparr> width := 50, height := 50, upscale := True, upscale_integer := True,
                 cell_x_px := 2, cell_y_px := 1 \<rparr>) \<le> INT_MAX
   \<and> stretch_box
        (rotate_options
           (box_200 \<lparr> width := 50, height := 50, upscale := True, upscale_integer := True,
                 cell_x_px := 2, cell_y_px := 1 \<rparr>) False)
        (clamp_width_stretch (width_stretch (rotate_options
           (box_200 \<lparr> width := 50, height := 50, upscale := True, upscale_integer := True,
                 cell_x_px := 2, cell_y_px := 1 \<rparr>) False)))
       = Inr (box_200 \<lparr> width := 50, height := 50, upscale := True, upscale_integer := True,
                 cell_x_px := 2, cell_y_px := 1 \<rparr>)
   \<and> \<not> no_scale_needed
         (box_200 \<lparr> width := 50, height := 50, upscale := True, upscale_integer := True,
                 cell_x_px := 2, cell_y_px := 1 \<rparr>)
         (width_fraction
            (box_200 \<lparr> width := 50, height := 50, upscale := True, upscale_integer := True,
                 cell_x_px := 2, cell_y_px := 1 \<rparr>) 10)
         (height_fraction
            (box_200 \<lparr> width := 50, height := 50, upscale := True, upscale_integer := True,
                 cell_x_px := 2, cell_y_px := 1 \<rparr>) 10)
   \<and> upscale_integer
        (box_200 \<lparr> width := 50, height := 50, upscale := True, upscale_integer := True,
                 cell_x_px := 2, cell_y_px := 1 \<rparr>)
   \<and> cell_x_px
        (box_200 \<lparr> width := 50, height := 50, upscale := True, upscale_integer := True,
                 cell_x_px := 2, cell_y_px := 1 \<rparr>) = 2
   \<and> round_mag Binary32 (round_mag Binary32 (of_int 50) / 2 / round_mag Binary32 (of_int 10))
       = 5 / 2
   \<and> round_mag Binary32 (round_mag Binary32 (of_int 50) / round_mag Binary32 (of_int 10)) = 5
   \<and> min (5 / 2) (5::rat) = 5 / 2 \<and> (1::rat) < 5 / 2 \<and> \<lfloor>5 / 2 :: rat\<rfloor> = 2
   \<and> (10::int) < 50
   \<and> CalcScaleToFitDisplay 10 10
        (box_200 \<lparr> width := 50, height := 50, upscale := True, upscale_integer := True,
                 cell_x_px := 2, cell_y_px := 1 \<rparr>) False
       = Inr \<lparr> target_width = 2 * 2 * 10, target_height = 2 * 10, needs_scaling = True \<rparr>
   \<and> (\<exists>t0 t1 t.
         scale_by_policy
           (box_200 \<lparr> width := 50, height := 50, upscale := True, upscale_integer := True,
                 cell_x_px := 2, cell_y_px := 1 \<rparr>)
           (width_fraction
              (box_200 \<lparr> width := 50, height := 50, upscale := True, upscale_integer := True,
                 cell_x_px := 2, cell_y_px := 1 \<rparr>) 10)
           (height_fraction
              (box_200 \<lparr> width := 50, height := 50, upscale := True, upscale_integer := True,
                 cell_x_px := 2, cell_y_px := 1 \<rparr>) 10)
           10 10 = Inr t0
         \<and> restretch (Finite 1) t0 = Inr t1
         \<and> t = at_least_one (quantize_to_cells
              (box_200 \<lparr> width := 50, height := 50, upscale := True, upscale_integer := True,
                 cell_x_px := 2, cell_y_px := 1 \<rparr>) t1)
         \<and> t = (50, 50))"
proof -
  let ?o = "box_200 \<lparr> width := 50, height := 50, upscale := True, upscale_integer := True,
                 cell_x_px := 2, cell_y_px := 1 \<rparr>"
  have b: "stretch_box (rotate_options ?o False)
       (clamp_width_stretch (width_stretch (rotate_options ?o False))) = Inr ?o"
    by code_simp
  have n: "\<not> no_scale_needed ?o (width_fraction ?o 10) (height_fraction ?o 10)"
    by (simp add: no_scale_needed_def box_200_def)
  have r: "CalcScaleToFitDisplay 10 10 ?o False
       = Inr \<lparr> target_width = 2 * 2 * 10, target_height = 2 * 10, needs_scaling = True \<rparr>"
    by code_simp
  have wf: "round_mag Binary32
      (round_mag Binary32 (of_int 50) / 2 / round_mag Binary32 (of_int 10)) = 5 / 2"
    by code_simp
  have hf: "round_mag Binary32
      (round_mag Binary32 (of_int 50) / round_mag Binary32 (of_int 10)) = 5"
    by code_simp
  have fl: "\<lfloor>5 / 2 :: rat\<rfloor> = 2"
    by (rule floor_unique) simp_all
  have ws: "clamp_width_stretch (width_stretch (rotate_options ?o False)) = Finite 1"
    by code_simp
  have t0: "scale_by_policy ?o (width_fraction ?o 10) (height_fraction ?o 10) 10 10
      = Inr (50, 50)"
    by code_simp
  have t1: "restretch (Finite 1) (50, 50) = Inr (50, 50)"
    by code_simp
  have q: "at_least_one (quantize_to_cells ?o (50, 50)) = (50, 50)"
    by code_simp
  have m: "(10::int) \<le> INT_MAX" "width ?o \<le> INT_MAX" "height ?o \<le> INT_MAX"
    by (simp_all add: INT_MAX_def box_200_def)
  have c: "upscale_integer ?o" "cell_x_px ?o = 2" by (simp_all add: box_200_def)
  note th = integer_upscale_tests_unfloored_factor [of 10 10 ?o False ?o,
      OF _ m(1) _ m(1) m(2,3) b n r, unfolded ws]
  have "\<exists>u0 u1 u. scale_by_policy ?o (width_fraction ?o 10) (height_fraction ?o 10) 10 10
      = Inr u0 \<and> restretch (Finite 1) u0 = Inr u1
      \<and> u = at_least_one (quantize_to_cells ?o u1)"
    using th
    apply simp
    apply (elim exE conjE)
    apply (intro exI conjI)
      apply assumption+
    done
  then obtain u0 u1 u where u: "scale_by_policy ?o (width_fraction ?o 10) (height_fraction ?o 10) 10 10
      = Inr u0" "restretch (Finite 1) u0 = Inr u1"
      "u = at_least_one (quantize_to_cells ?o u1)"
    by blast
  from u t0 t1 q have "u = (50, 50)" by simp
  with u have ex: "\<exists>t0 t1 t.
      scale_by_policy ?o (width_fraction ?o 10) (height_fraction ?o 10) 10 10 = Inr t0
      \<and> restretch (Finite 1) t0 = Inr t1
      \<and> t = at_least_one (quantize_to_cells ?o t1)
      \<and> t = (50, 50)"
    by blast
  have num: "(1::int) \<le> 10" "min (5 / 2) (5::rat) = 5 / 2" "(1::rat) < 5 / 2" "(10::int) < 50"
    by simp_all
  show ?thesis
    by (intro conjI) (rule num m b n r wf hf fl c ex)+
qed

text \<open>
  Claim C5, as stated, fails on the early return: with \<open>cell_x_px = 2\<close> a source of 150 by
  50 in a box of 200 by 200 is returned as 300 by 50, wider than the box; and a source of
  50 by 50 is returned as it is, touching the box on neither axis. It also fails for a box
  above \<open>2\<^sup>2\<^sup>2\<close>, where the rounding of the fraction is felt: a source of 8390593
  by 1 in a box of 4196353 by 4196353 gets the width 4196354.
\<close>

theorem letterbox_overflow_counterexample:
  "\<not> fill_width (box_200 \<lparr> cell_x_px := 2 \<rparr>)
   \<and> \<not> fill_height (box_200 \<lparr> cell_x_px := 2 \<rparr>)
   \<and> \<not> upscale (box_200 \<lparr> cell_x_px := 2 \<rparr>)
   \<and> width (box_200 \<lparr> cell_x_px := 2 \<rparr>) = 200
   \<and> height (box_200 \<lparr> cell_x_px := 2 \<rparr>) = 200
   \<and> CalcScaleToFitDisplay 150 50 (box_200 \<lparr> cell_x_px := 2 \<rparr>) False
       = Inr \<lparr> target_width = 300, target_height = 50, needs_scaling = True \<rparr>
   \<and> \<not> fill_width box_200 \<and> \<not> fill_height box_200 \<and> \<not> upscale box_200
   \<and> width box_200 = 200 \<and> height box_200 = 200
   \<and> CalcScaleToFitDisplay 50 50 box_200 False
       = Inr \<lparr> target_width = 50, target_height = 50, needs_scaling = False \<rparr>
   \<and> \<not> fill_width (box_200 \<lparr> width := 4196353, height := 4196353 \<rparr>)
   \<and> \<not> fill_height (box_200 \<lparr> width := 4196353, height := 4196353 \<rparr>)
   \<and> \<not> upscale (box_200 \<lparr> width := 4196353, height := 4196353 \<rparr>)
   \<and> width (box_200 \<lparr> width := 4196353, height := 4196353 \<rparr>) = 4196353
   \<and> CalcScaleToFitDisplay 8390593 1 (box_200 \<lparr> width := 4196353, height := 4196353 \<rparr>) False
       = Inr \<lparr> target_width = 4196354, target_height = 1, needs_scaling = True \<rparr>"
proof -
  have "CalcScaleToFitDisplay 150 50 (box_200 \<lparr> cell_x_px := 2 \<rparr>) False
       = Inr \<lparr> target_width = 300, target_height = 50, needs_scaling = True \<rparr>"
    by code_simp
  moreover have "CalcScaleToFitDisplay 50 50 box_200 False
       = Inr \<lparr> target_width = 50, target_height = 50, needs_scaling = False \<rparr>"
    by code_simp
  moreover have "CalcScaleToFitDisplay 8390593 1
        (box_200 \<lparr> width := 4196353, height := 4196353 \<rparr>) False
       = Inr \<lparr> target_width = 4196354, target_height = 1, needs_scaling = True \<rparr>"
    by code_simp
  ultimately show ?thesis by (simp add: box_200_def)
qed

text \<open>
  Claim C5, amended. For every source (sides from 1 to \<open>INT_MAX\<close>) and a box with sides
  from 1 to \<open>2\<^sup>2\<^sup>2\<close> = 4194304, a stretch that is not NaN, both fill flags and
  \<open>upscale\<close> off, the function returns; the target height is at most the height of the box
  (after the swap of a rotated fit); the target width is at most the width of the box,
  except on the early return with \<open>cell_x_px = 2\<close>, where it is twice the width of a source
  that fits the box. When moreover the clamped stretch is 1, the box is a whole number of
  cells, and the source is at least as wide or at least as high as the box, the target has
  the width of the box or its height.
\<close>

theorem letterbox_fits_box:
  assumes "1 \<le> img_width" "img_width \<le> INT_MAX" "1 \<le> img_height" "img_height \<le> INT_MAX"
    and "1 \<le> width orig" "width orig \<le> 4194304" "1 \<le> height orig" "height orig \<le> 4194304"
    and "\<not> is_nan (width_stretch orig)"
    and "\<not> fill_width orig" "\<not> fill_height orig" "\<not> upscale orig"
  shows "\<exists>r. CalcScaleToFitDisplay img_width img_height orig rot = Inr r
           \<and> target_height r \<le> height (rotate_options orig rot)
           \<and> (target_width r \<le> width (rotate_options orig rot)
              \<or> cell_x_px orig = 2 \<and> target_width r = 2 * img_width
                \<and> img_width \<le> width (rotate_options orig rot)
                \<and> target_height r = img_height)
           \<and> (clamp_width_stretch (width_stretch (rotate_options orig rot)) = Finite 1
              \<and> quantize_to_cells (rotate_options orig rot)
                    (width (rotate_options orig rot), height (rotate_options orig rot))
                  = (width (rotate_options orig rot), height (rotate_options orig rot))
              \<and> (width (rotate_options orig rot) \<le> img_width
                  \<or> height (rotate_options orig rot) \<le> img_height)
              \<longrightarrow> target_width r = width (rotate_options orig rot)
                  \<or> target_height r = height (rotate_options orig rot))"
proof -
  from letterbox_within_box [OF assms, of rot] obtain r where
    r: "CalcScaleToFitDisplay img_width img_height orig rot = Inr r"
    and within: "target_height r \<le> height (rotate_options orig rot)"
      "target_width r \<le> width (rotate_options orig rot)
       \<or> cell_x_px orig = 2 \<and> target_width r = 2 * img_width
         \<and> img_width \<le> width (rotate_options orig rot)
         \<and> target_height r = img_height"
    by blast
  have "target_width r = width (rotate_options orig rot)
      \<or> target_height r = height (rotate_options orig rot)"
    if "clamp_width_stretch (width_stretch (rotate_options orig rot)) = Finite 1"
      and "quantize_to_cells (rotate_options orig rot)
            (width (rotate_options orig rot), height (rotate_options orig rot))
          = (width (rotate_options orig rot), height (rotate_options orig rot))"
      and "width (rotate_options orig rot) \<le> img_width
          \<or> height (rotate_options orig rot) \<le> img_height"
    using letterbox_touches_box [OF assms that] r by auto
  with r within show ?thesis by blast
qed

theorem letterbox_fits_box_witness:
  "(1::int) \<le> 100000 \<and> (100000::int) \<le> INT_MAX \<and> (1::int) \<le> 80000 \<and> (80000::int) \<le> INT_MAX
   \<and> width (box_200 \<lparr> width := 3840, height := 2160 \<rparr>) = 3840
   \<and> height (box_200 \<lparr> width := 3840, height := 2160 \<rparr>) = 2160
   \<and> (3840::int) \<le> 4194304 \<and> (2160::int) \<le> 4194304
   \<and> \<not> is_nan (width_stretch (box_200 \<lparr> width := 3840, height := 2160 \<rparr>))
   \<and> \<not> fill_width (box_200 \<lparr> width := 3840, height := 2160 \<rparr>)
   \<and> \<not> fill_height (box_200 \<lparr> width := 3840, height := 2160 \<rparr>)
   \<and> \<not> upscale (box_200 \<lparr> width := 3840, height := 2160 \<rparr>)
   \<and> clamp_width_stretch
        (width_stretch (rotate_options (box_200 \<lparr> width := 3840, height := 2160 \<rparr>) False))
       = Finite 1
   \<and> quantize_to_cells (rotate_options (box_200 \<lparr> width := 3840, height := 2160 \<rparr>) False)
        (3840, 2160) = (3840, 2160)
   \<and> (2160::int) \<le> 80000
   \<and> CalcScaleToFitDisplay 100000 80000 (box_200 \<lparr> width := 3840, height := 2160 \<rparr>) False
       = Inr \<lparr> target_width = 2700, target_height = 2160, needs_scaling = True \<rparr>
   \<and> (\<exists>r. CalcScaleToFitDisplay 100000 80000 (box_200 \<lparr> width := 3840, height := 2160 \<rparr>)
             False = Inr r
          \<and> target_width r \<le> 3840 \<and> target_height r = 2160)"
proof -
  let ?o = "box_200 \<lparr> width := 3840, height := 2160 \<rparr>"
  have e: "CalcScaleToFitDisplay 100000 80000 ?o False
       = Inr \<lparr> target_width = 2700, target_height = 2160, needs_scaling = True \<rparr>"
    by code_simp
  have c: "clamp_width_stretch (width_stretch (rotate_options ?o False)) = Finite 1"
    by code_simp
  have q: "quantize_to_cells (rotate_options ?o False) (3840, 2160) = (3840, 2160)"
    by (simp add: quantize_to_cells_def rotate_options_def box_200_def)
  have b: "width ?o = 3840" "height ?o = 2160" "\<not> is_nan (width_stretch ?o)"
    "\<not> fill_width ?o" "\<not> fill_height ?o" "\<not> upscale ?o"
    by (simp_all add: box_200_def)
  have m: "(100000::int) \<le> INT_MAX" "(80000::int) \<le> INT_MAX" by (simp_all add: INT_MAX_def)
  from letterbox_fits_box [of 100000 80000 ?o False] e c q b m
  show ?thesis by (simp add: rotate_options_def)
qed

section \<open>Properties of the LabelTemplater\<close>

lemma Expand_spec_drop:
  assumes "i < length fmt"
  shows "Expand_spec fn w h dec (drop i fmt) =
     (if fmt ! i \<noteq> CHR ''%'' \<or> i \<ge> length fmt - 1
      then fmt ! i # Expand_spec fn w h dec (drop (i + 1) fmt)
      else fmt_escape fn w h dec (fmt ! (i + 1)) @ Expand_spec fn w h dec (drop (i + 1 + 1) fmt))"
proof (cases "i \<ge> length fmt - 1")
  case True
  with assms have "drop i fmt = [fmt ! i]" "drop (i + 1) fmt = []"
    by (auto simp: Cons_nth_drop_Suc [symmetric])
  with True show ?thesis by simp
next
  case False
  then have "Suc i < length fmt" by simp
  then have d: "drop i fmt = fmt ! i # fmt ! Suc i # drop (Suc (Suc i)) fmt"
    using assms by (simp add: Cons_nth_drop_Suc)
  have d1: "drop (Suc i) fmt = fmt ! Suc i # drop (Suc (Suc i)) fmt"
    using \<open>Suc i < length fmt\<close> by (simp add: Cons_nth_drop_Suc)
  show ?thesis using False by (simp add: d d1)
qed

lemma fmt_loop_spec:
  "fmt_loop fmt fn w h dec i res = res @ Expand_spec fn w h dec (drop i fmt)"
proof (induction fmt fn w h dec i res rule: fmt_loop.induct)
  case (1 fmt fn w h dec i res)
  show ?case
  proof (cases "i < length fmt")
    case False
    then show ?thesis by (simp add: fmt_loop.simps [of fmt fn w h dec i res])
  next
    case True
    show ?thesis
      using True "1.IH"
      by (subst fmt_loop.simps) (simp add: Expand_spec_drop [OF True] del: Expand_spec.simps)
  qed
qed

lemma find_last_of_None: "find_last_of s cs = None \<longleftrightarrow> set s \<inter> set cs = {}"
  by (induction s) (auto split: option.splits)

lemma find_last_of_append:
  "c \<in> set cs \<Longrightarrow> set b \<inter> set cs = {} \<Longrightarrow> find_last_of (a @ c # b) cs = Some (length a)"
  by (induction a) (auto simp: find_last_of_None split: option.splits)

lemma Basename_whole: "set s \<inter> {CHR ''/'', CHR 0x5C} = {} \<Longrightarrow> Basename s = s"
  using find_last_of_None [of s path_separators]
  by (simp add: Basename_def path_separators_def)

lemma Basename_after:
  "c \<in> {CHR ''/'', CHR 0x5C} \<Longrightarrow> set b \<inter> {CHR ''/'', CHR 0x5C} = {} \<Longrightarrow> Basename (a @ c # b) = b"
  using find_last_of_append [of c path_separators b a]
  by (simp add: Basename_def path_separators_def substr_def)

lemma digit_char_cases:
  fixes d :: nat
  assumes "d < 10"
  obtains "d = 0" | "d = 1" | "d = 2" | "d = 3" | "d = 4" | "d = 5" | "d = 6" | "d = 7"
    | "d = 8" | "d = 9"
  using assms by atomize_elim arith

lemma digit_char_digit:
  assumes "d < 10"
  shows "is_decimal_digit (digit_char d)" "decimal_digit_value (digit_char d) = d"
    "digit_char d = CHR ''0'' \<longleftrightarrow> d = 0" "digit_char d \<noteq> CHR ''-''"
  using assms
  by (rule digit_char_cases;
      simp add: digit_char_def is_decimal_digit_def decimal_digit_value_def)+

lemma decimal_digit_char:
  assumes "is_decimal_digit c"
  shows "decimal_digit_value c < 10" "digit_char (decimal_digit_value c) = c"
proof -
  define n where "n = (of_char c :: nat)"
  have r: "48 \<le> n" "n \<le> 57" using assms by (simp_all add: is_decimal_digit_def n_def)
  show "decimal_digit_value c < 10"
    using r by (simp add: decimal_digit_value_def flip: n_def)
  have v: "decimal_digit_value c = n - 48" by (simp add: decimal_digit_value_def n_def)
  from r consider "n = 48" | "n = 49" | "n = 50" | "n = 51" | "n = 52" | "n = 53" | "n = 54"
    | "n = 55" | "n = 56" | "n = 57"
    by atomize_elim arith
  then have "(of_char (digit_char (n - 48)) :: nat) = n"
    by cases (simp_all add: digit_char_def)
  then have "(of_char (digit_char (decimal_digit_value c)) :: nat) = of_char c"
    by (simp only: v n_def)
  then show "digit_char (decimal_digit_value c) = c"
    by (simp only: of_char_eq_iff)
qed

lemma decimal_nat_value_snoc:
  "decimal_nat_value (ds @ [c]) = 10 * decimal_nat_value ds + decimal_digit_value c"
  by (simp add: decimal_nat_value_def)

text \<open>What \<open>dec_nat\<close> writes is the decimal text of the number.\<close>

lemma dec_nat_decimal:
  "is_decimal_nat (dec_nat n) \<and> decimal_nat_value (dec_nat n) = n
   \<and> (dec_nat n = ''0'' \<longleftrightarrow> n = 0) \<and> hd (dec_nat n) \<noteq> CHR ''-''"
proof (induction n rule: dec_nat.induct)
  case (1 n)
  show ?case
  proof (cases "n < 10")
    case True
    then have d: "dec_nat n = [digit_char n]" by (simp add: dec_nat.simps)
    show ?thesis
      using digit_char_digit [OF True]
      by (auto simp: d is_decimal_nat_def decimal_nat_value_def)
  next
    case False
    let ?q = "n div 10" and ?r = "n mod 10"
    have d: "dec_nat n = dec_nat ?q @ [digit_char ?r]"
      using False by (subst dec_nat.simps) simp
    have r: "?r < 10" by simp
    have q: "?q \<noteq> 0" using False by simp
    from "1.IH" [OF False] have ih: "is_decimal_nat (dec_nat ?q)"
      "decimal_nat_value (dec_nat ?q) = ?q" "dec_nat ?q = ''0'' \<longleftrightarrow> ?q = 0"
      "hd (dec_nat ?q) \<noteq> CHR ''-''"
      by simp_all
    from ih(1) have ne: "dec_nat ?q \<noteq> []" and all: "list_all is_decimal_digit (dec_nat ?q)"
      and lead: "dec_nat ?q = ''0'' \<or> hd (dec_nat ?q) \<noteq> CHR ''0''"
      by (simp_all add: is_decimal_nat_def)
    from lead ih(3) q have lead': "hd (dec_nat ?q) \<noteq> CHR ''0''" by simp
    have "is_decimal_nat (dec_nat n)"
      using ne all lead' digit_char_digit(1) [OF r]
      by (simp add: d is_decimal_nat_def)
    moreover have "decimal_nat_value (dec_nat n) = n"
      by (simp add: d decimal_nat_value_snoc ih(2) digit_char_digit(2) [OF r])
    moreover have "dec_nat n \<noteq> ''0''"
      using ne by (simp add: d append_eq_Cons_conv)
    moreover have "n \<noteq> 0" using False by simp
    moreover have "hd (dec_nat n) \<noteq> CHR ''-''"
      using ne ih(4) by (simp add: d)
    ultimately show ?thesis by simp
  qed
qed

text \<open>And \<open>dec_nat\<close> writes the only decimal text of the number.\<close>

lemma decimal_nat_unique:
  "is_decimal_nat ds \<Longrightarrow> dec_nat (decimal_nat_value ds) = ds"
proof (induction ds rule: rev_induct)
  case Nil
  then show ?case by (simp add: is_decimal_nat_def)
next
  case (snoc c ds)
  from snoc.prems have c: "is_decimal_digit c" and all: "list_all is_decimal_digit ds"
    by (simp_all add: is_decimal_nat_def)
  note dc = decimal_digit_char [OF c]
  show ?case
  proof (cases "ds = []")
    case True
    then have "decimal_nat_value (ds @ [c]) = decimal_digit_value c"
      by (simp add: decimal_nat_value_def)
    with dc True show ?thesis by (simp add: dec_nat.simps)
  next
    case False
    with snoc.prems have lead: "hd ds \<noteq> CHR ''0''"
      by (auto simp: is_decimal_nat_def append_eq_Cons_conv)
    with False all have dn: "is_decimal_nat ds" by (simp add: is_decimal_nat_def)
    from snoc.IH [OF dn] have ih: "dec_nat (decimal_nat_value ds) = ds" .
    have "decimal_nat_value ds \<noteq> 0"
    proof
      assume "decimal_nat_value ds = 0"
      with ih have "ds = dec_nat 0" by simp
      then have "ds = ''0''" by (simp add: dec_nat.simps digit_char_def)
      with lead show False by simp
    qed
    then have big: "\<not> 10 * decimal_nat_value ds + decimal_digit_value c < 10" by simp
    have "dec_nat (10 * decimal_nat_value ds + decimal_digit_value c)
        = dec_nat ((10 * decimal_nat_value ds + decimal_digit_value c) div 10)
          @ [digit_char ((10 * decimal_nat_value ds + decimal_digit_value c) mod 10)]"
      using big by (subst dec_nat.simps) simp
    also have "(10 * decimal_nat_value ds + decimal_digit_value c) div 10 = decimal_nat_value ds"
      using dc(1) by simp
    also have "(10 * decimal_nat_value ds + decimal_digit_value c) mod 10 = decimal_digit_value c"
      using dc(1) by simp
    finally show ?thesis by (simp add: decimal_nat_value_snoc ih dc(2))
  qed
qed

lemma dec_int_decimal: "decimal_value (dec_int i) = Some i"
proof (cases "i < 0")
  case True
  note d = dec_nat_decimal [of "nat (- i)"]
  from True have "nat (- i) \<noteq> 0" by simp
  with d have "dec_nat (nat (- i)) \<noteq> ''0''" by simp
  with d True show ?thesis by (simp add: decimal_value_def dec_int_def)
next
  case False
  note d = dec_nat_decimal [of "nat i"]
  from d have "dec_nat (nat i) \<noteq> []" by (simp add: is_decimal_nat_def)
  then obtain c cs where cs: "dec_nat (nat i) = c # cs" by (cases "dec_nat (nat i)") auto
  with d have "c \<noteq> CHR ''-''" by simp
  with d cs False show ?thesis by (simp add: decimal_value_def dec_int_def)
qed

lemma decimal_value_unique:
  assumes "decimal_value s = Some i"
  shows "s = dec_int i"
proof (cases s)
  case Nil
  with assms show ?thesis by (simp add: decimal_value_def)
next
  case (Cons c ds)
  show ?thesis
  proof (cases "c = CHR ''-''")
    case True
    with assms Cons have dn: "is_decimal_nat ds" and z: "ds \<noteq> ''0''"
      and i: "i = - int (decimal_nat_value ds)"
      by (auto simp: decimal_value_def split: if_splits)
    note u = decimal_nat_unique [OF dn]
    have "decimal_nat_value ds \<noteq> 0"
    proof
      assume "decimal_nat_value ds = 0"
      with u have "ds = dec_nat 0" by simp
      then have "ds = ''0''" by (simp add: dec_nat.simps digit_char_def)
      with z show False by simp
    qed
    then have "i < 0" "nat (- i) = decimal_nat_value ds" using i by simp_all
    with u Cons True show ?thesis by (simp add: dec_int_def)
  next
    case False
    with assms Cons have dn: "is_decimal_nat s" and i: "i = int (decimal_nat_value s)"
      by (auto simp: decimal_value_def split: if_splits)
    from i have "\<not> i < 0" "nat i = decimal_nat_value s" by simp_all
    with decimal_nat_unique [OF dn] show ?thesis by (simp add: dec_int_def)
  qed
qed

text \<open>
  Claim C6. For every template, \<open>FormatFromParameters\<close> is the single scan from the left of
  \<open>Expand_spec\<close>: a percent sign takes exactly one following character, \<open>%f\<close> gives the
  filename, \<open>%b\<close> the basename (what follows the last slash or backslash, or the whole name
  when there is none), \<open>%w\<close> and \<open>%h\<close> the decimal text of the width and of the height
  (the text that \<open>decimal_value\<close> reads back to the number, and the only such text),
  \<open>%D\<close> the decoder name, any other character after a percent sign is copied, and a
  percent sign that ends the template is copied. The two examples of the specification
  come out as written.
\<close>

theorem FormatFromParameters_expands:
  "FormatFromParameters fmt_string filename w h decoder
     = Expand_spec filename w h decoder fmt_string
   \<and> fmt_escape filename w h decoder CHR ''f'' = filename
   \<and> fmt_escape filename w h decoder CHR ''b'' = Basename filename
   \<and> decimal_value (fmt_escape filename w h decoder CHR ''w'') = Some w
   \<and> decimal_value (fmt_escape filename w h decoder CHR ''h'') = Some h
   \<and> (decimal_value text_w = Some w \<longrightarrow> fmt_escape filename w h decoder CHR ''w'' = text_w)
   \<and> (decimal_value text_h = Some h \<longrightarrow> fmt_escape filename w h decoder CHR ''h'' = text_h)
   \<and> fmt_escape filename w h decoder CHR ''D'' = decoder
   \<and> (c \<notin> set ''fbwhD'' \<longrightarrow> fmt_escape filename w h decoder c = [c])
   \<and> (set filename \<inter> {CHR ''/'', CHR 0x5C} = {} \<longrightarrow> Basename filename = filename)
   \<and> (sep \<in> {CHR ''/'', CHR 0x5C} \<and> set b \<inter> {CHR ''/'', CHR 0x5C} = {}
        \<longrightarrow> Basename (a @ sep # b) = b)
   \<and> FormatFromParameters ''%f (%wx%h) [%D]'' ''/a/b/c.png'' 10 20 ''stb''
        = ''/a/b/c.png (10x20) [stb]''
   \<and> FormatFromParameters ''100%'' filename w h decoder = ''100%''"
proof -
  have ex1: "FormatFromParameters ''%f (%wx%h) [%D]'' ''/a/b/c.png'' 10 20 ''stb''
        = ''/a/b/c.png (10x20) [stb]''"
    by (simp add: FormatFromParameters_def fmt_loop_spec fmt_escape_def dec_int_def
        dec_nat.simps digit_char_def)
  have ex2: "FormatFromParameters ''100%'' filename w h decoder = ''100%''"
    by (simp add: FormatFromParameters_def fmt_loop_spec)
  have esc: "c \<notin> set ''fbwhD'' \<longrightarrow> fmt_escape filename w h decoder c = [c]"
    by (simp add: fmt_escape_def)
  have ew: "fmt_escape filename w h decoder CHR ''w'' = dec_int w"
    and eh: "fmt_escape filename w h decoder CHR ''h'' = dec_int h"
    by (simp_all add: fmt_escape_def)
  have uw: "decimal_value text_w = Some w \<longrightarrow> fmt_escape filename w h decoder CHR ''w'' = text_w"
    using decimal_value_unique [of text_w w] by (simp add: ew)
  have uh: "decimal_value text_h = Some h \<longrightarrow> fmt_escape filename w h decoder CHR ''h'' = text_h"
    using decimal_value_unique [of text_h h] by (simp add: eh)
  have dw: "decimal_value (fmt_escape filename w h decoder CHR ''w'') = Some w"
    and dh: "decimal_value (fmt_escape filename w h decoder CHR ''h'') = Some h"
    by (simp_all only: ew eh dec_int_decimal)
  have tab: "fmt_escape filename w h decoder CHR ''f'' = filename"
    "fmt_escape filename w h decoder CHR ''b'' = Basename filename"
    "fmt_escape filename w h decoder CHR ''D'' = decoder"
    by (simp_all add: fmt_escape_def)
  have scan: "FormatFromParameters fmt_string filename w h decoder
     = Expand_spec filename w h decoder fmt_string"
    by (simp add: FormatFromParameters_def fmt_loop_spec)
  have bn: "set filename \<inter> {CHR ''/'', CHR 0x5C} = {} \<longrightarrow> Basename filename = filename"
    "sep \<in> {CHR ''/'', CHR 0x5C} \<and> set b \<inter> {CHR ''/'', CHR 0x5C} = {}
        \<longrightarrow> Basename (a @ sep # b) = b"
    using Basename_whole [of filename] Basename_after [of sep b a] by blast+
  show ?thesis
    by (intro conjI) (rule scan tab dw dh uw uh esc bn ex1 ex2)+
qed

theorem FormatFromParameters_expands_witness:
  "FormatFromParameters ''%b: %wx%h %% %q%'' ''/a/b/c.png'' 10 (- 20) ''stb''
     = ''c.png: 10x-20 % q%''
   \<and> decimal_value ''10'' = Some 10
   \<and> decimal_value ''-20'' = Some (- 20)
   \<and> FormatFromParameters ''%w'' ''/a/b/c.png'' 10 (- 20) ''stb'' = ''10''
   \<and> FormatFromParameters ''%h'' ''/a/b/c.png'' 10 (- 20) ''stb'' = ''-20''
   \<and> decimal_value ''010'' = None
   \<and> CHR ''q'' \<notin> set ''fbwhD''
   \<and> set ''c.png'' \<inter> {CHR ''/'', CHR 0x5C} = {}
   \<and> Basename ''c.png'' = ''c.png''
   \<and> CHR ''/'' \<in> {CHR ''/'', CHR 0x5C}
   \<and> Basename (''/a/b'' @ CHR ''/'' # ''c.png'') = ''c.png''"
proof -
  have d: "decimal_value ''10'' = Some 10" "decimal_value ''-20'' = Some (- 20)"
    "decimal_value ''010'' = None"
    by (simp_all add: decimal_value_def is_decimal_nat_def is_decimal_digit_def
        decimal_nat_value_def decimal_digit_value_def)
  note t1 = FormatFromParameters_expands [of "''%b: %wx%h %% %q%''" "''/a/b/c.png''" 10 "- 20"
      "''stb''" "''10''" "''-20''" "CHR ''q''" "CHR ''/''" "''c.png''" "''/a/b''"]
  note t2 = FormatFromParameters_expands [of "''%w''" "''/a/b/c.png''" 10 "- 20"
      "''stb''" "''10''" "''-20''" "CHR ''q''" "CHR ''/''" "''c.png''" "''/a/b''"]
  note t3 = FormatFromParameters_expands [of "''%h''" "''/a/b/c.png''" 10 "- 20"
      "''stb''" "''10''" "''-20''" "CHR ''q''" "CHR ''/''" "''c.png''" "''/a/b''"]
  note t4 = FormatFromParameters_expands [of "[]" "''c.png''" 0 0 "[]" "[]" "[]" "CHR ''q''"
      "CHR ''/''" "[]" "[]"]
  have w: "fmt_escape ''/a/b/c.png'' 10 (- 20) ''stb'' CHR ''w'' = ''10''"
    and h: "fmt_escape ''/a/b/c.png'' 10 (- 20) ''stb'' CHR ''h'' = ''-20''"
    using t1 d by simp_all
  have b: "fmt_escape ''/a/b/c.png'' 10 (- 20) ''stb'' CHR ''b'' = ''c.png''"
    using t1 by simp
  have q: "fmt_escape ''/a/b/c.png'' 10 (- 20) ''stb'' CHR ''q'' = ''q''"
    "fmt_escape ''/a/b/c.png'' 10 (- 20) ''stb'' CHR ''%'' = ''%''"
    by (simp_all add: fmt_escape_def)
  show ?thesis
    using t1 t2 t3 t4 d by (simp add: w h b q)
qed

section \<open>Properties of the ChunkSniffer\<close>

lemma actl_loop_found: "actl_loop fd True p = Some True"
  by (subst actl_loop.simps) simp

lemma actl_loop_beyond: "1024 \<le> p \<Longrightarrow> actl_loop fd False p = Some False"
  by (subst actl_loop.simps) simp

lemma spec_walk_beyond: "1024 \<le> pos \<Longrightarrow> \<not> spec_walk n fd pos"
  by (cases n) simp_all

lemma actl_loop_without_wrap:
  assumes nw: "\<And>q buf. q < 1024 \<Longrightarrow> fd q = PreadBytes buf \<Longrightarrow> length buf = 8
                 \<Longrightarrow> unat (ntohl_buf buf) + 12 < 2 ^ 32"
  shows "1024 - p \<le> n \<Longrightarrow> actl_loop fd False p = Some (spec_walk n fd p)"
proof (induction n arbitrary: p)
  case 0
  then show ?case by (simp add: actl_loop_beyond)
next
  case (Suc n)
  show ?case
  proof (cases "p < 1024")
    case False
    then show ?thesis by (simp add: actl_loop_beyond)
  next
    case True
    show ?thesis
    proof (cases "fd p")
      case PreadFailed
      with True show ?thesis by (subst actl_loop.simps) simp
    next
      case (PreadBytes buf)
      show ?thesis
      proof (cases "length buf = 8")
        case False
        with True PreadBytes show ?thesis by (subst actl_loop.simps) simp
      next
        case len: True
        have adv: "unat (ntohl_buf buf + 12) = unat (ntohl_buf buf) + 12"
          using nw [OF True PreadBytes len] by (simp add: unat_word_ariths)
        show ?thesis
        proof (cases "drop 4 buf = acTL")
          case True
          with \<open>p < 1024\<close> PreadBytes len show ?thesis
            by (subst actl_loop.simps) (simp add: actl_loop_found)
        next
          case False
          have "1024 - (p + (unat (ntohl_buf buf) + 12)) \<le> n"
            using Suc.prems by simp
          from Suc.IH [OF this] False \<open>p < 1024\<close> PreadBytes len adv show ?thesis
            by (subst actl_loop.simps) simp
        qed
      qed
    qed
  qed
qed

lemma actl_loop_stuck:
  assumes "fd p = PreadBytes buf" "length buf = 8" "drop 4 buf \<noteq> acTL"
    and "ntohl_buf buf + 12 = 0" "p < 1024"
  shows "actl_loop fd False p = None"
proof -
  have eq: "(\<lambda>f :: (file_descriptor \<times> bool) \<times> nat \<Rightarrow> bool option. f ((fd, False), p) = None)
      = (\<lambda>f. \<forall>x y. f x = Some y \<longrightarrow> x \<noteq> ((fd, False), p))"
  proof (rule ext)
    fix f :: "(file_descriptor \<times> bool) \<times> nat \<Rightarrow> bool option"
    show "(f ((fd, False), p) = None) = (\<forall>x y. f x = Some y \<longrightarrow> x \<noteq> ((fd, False), p))"
      by (cases "f ((fd, False), p)") auto
  qed
  have adm: "option.admissible (\<lambda>f :: (file_descriptor \<times> bool) \<times> nat \<Rightarrow> bool option.
      f ((fd, False), p) = None)"
    unfolding eq by (rule option_admissible)
  show ?thesis
    by (rule actl_loop.fixp_induct [where P = "\<lambda>f. f fd False p = None"])
       (use adm assms in auto)
qed

text \<open>
  Claim C9. The specification lets \<open>HasAPNGHeader\<close> move on by the declared length plus 12
  after a chunk that does not match. The code adds in \<open>uint32_t\<close>: in the file
  \<open>wrapping_png\<close> the sum wraps to 8, the code reads the chunk at offset 16 and answers
  true, where the walk of the specification leaves the first 1024 bytes and answers false;
  in the file \<open>looping_png\<close> the sum wraps to 0 and the loop never ends.
\<close>

theorem HasAPNGHeader_length_wraps:
  "HasAPNGHeader (single_file ''w.png'' wrapping_png) ''w.png'' = Some True
   \<and> \<not> spec_walk 1024 (regular_file wrapping_png) kPngHeaderLen
   \<and> HasAPNGHeader (single_file ''l.png'' looping_png) ''l.png'' = None"
proof -
  have w: "actl_loop (regular_file wrapping_png) False 8 = Some True"
    apply (subst actl_loop.simps)
    apply (simp add: regular_file_def wrapping_png_def ntohl_buf_def acTL_def)
    apply (subst actl_loop.simps)
    apply (simp add: regular_file_def wrapping_png_def ntohl_buf_def acTL_def)
    apply (subst actl_loop.simps)
    apply simp
    done
  have s: "\<not> spec_walk (Suc 1023) (regular_file wrapping_png) 8"
    unfolding spec_walk.simps
    by (simp add: regular_file_def wrapping_png_def ntohl_buf_def acTL_def spec_walk_beyond)
  have l: "actl_loop (regular_file looping_png) False 8 = None"
    by (rule actl_loop_stuck [where buf = "[0xFF, 0xFF, 0xFF, 0xF4, 0x49, 0x48, 0x44, 0x52]"])
       (simp_all add: regular_file_def looping_png_def ntohl_buf_def acTL_def)
  from w s l show ?thesis
    by (simp add: HasAPNGHeader_def single_file_def kPngHeaderLen_def)
qed

text \<open>
  Claim C10. \<open>LooksLikeAPNG\<close> starts its comparison at
  \<open>file + strlen(file) - strlen(ending)\<close> without looking at the lengths: for a filename
  shorter than the ending the first character read lies before the buffer. The file named
  \<open>a\<close> is such a case for the first ending, and the file named \<open>abcd\<close> for the second.
\<close>

theorem LooksLikeAPNG_reads_before_the_buffer:
  "LooksLikeAPNG fs ''a'' = Some (Inl OutOfBounds)
   \<and> LooksLikeAPNG fs ''abcd'' = Some (Inl OutOfBounds)"
  by (simp add: LooksLikeAPNG_def c_str_def strlen_def char_at_def tolower_def)

section \<open>Properties of the DecoderProbe\<close>


lemma probe_none:
  assumes "\<forall>c \<in> set ds. load c = Returns False"
  shows "probe load ds tried = Returns (None, tried @ ds)"
  using assms by (induction ds arbitrary: tried) auto

lemma probe_throws:
  assumes "\<forall>c \<in> set pre. load c = Returns False" "load d = Throws"
  shows "probe load (pre @ d # post) tried = Throws"
  using assms by (induction pre arbitrary: tried) auto

lemma image_backends_filter: "image_backends cfg = filter (compiled_in cfg) image_backend_order"
  by (simp add: image_backends_def image_backend_order_def)


text \<open>
  The suffix comparison of \<open>Create\<close> checks the length first and stays inside the buffer.
\<close>

lemma tolower_zero: "tolower c = CHR 0x00 \<longleftrightarrow> c = CHR 0x00"
proof (cases "65 \<le> (of_char c :: nat) \<and> (of_char c :: nat) \<le> 90")
  case True
  then have "(of_char (tolower c) :: nat) = of_char c + 32"
    by (simp add: tolower_def)
  with True have "(of_char (tolower c) :: nat) \<noteq> of_char (CHR 0x00)" "(of_char c :: nat) \<noteq> of_char (CHR 0x00)"
    by simp_all
  then show ?thesis by auto
next
  case False
  then show ?thesis by (auto simp: tolower_def)
qed

lemma tolower_zero_char [simp]: "tolower CHR 0x00 = CHR 0x00"
  by (simp add: tolower_def)

lemma strcasecmp_eq_in_bounds:
  assumes "0 \<le> i" "i + int (length s) < int (length buf)"
  shows "\<not> isl (strcasecmp_eq buf i (s @ [CHR 0x00]))"
  using assms
proof (induction s arbitrary: i)
  case Nil
  then show ?case by (simp add: char_at_def tolower_zero)
next
  case (Cons c s)
  have "0 \<le> i + 1" "i + 1 + int (length s) < int (length buf)"
    using Cons.prems by simp_all
  from Cons.IH [OF this] Cons.prems show ?case
    by (simp add: char_at_def)
qed

lemma strlen_c_str: "CHR 0x00 \<notin> set s \<Longrightarrow> strlen (c_str s) = length s"
  by (induction s) (auto simp: strlen_def c_str_def)

lemma video_suffix_loop_in_bounds:
  assumes "\<forall>s \<in> set sfxs. CHR 0x00 \<notin> set s"
  shows "\<not> isl (video_suffix_loop filename sfxs)"
  using assms
proof (induction sfxs)
  case Nil
  then show ?case by simp
next
  case (Cons sfx rest)
  then have len: "strlen (c_str sfx) = length sfx"
    by (simp add: strlen_c_str)
  show ?case
  proof (cases "length filename < length sfx")
    case True
    with Cons len show ?thesis by simp
  next
    case False
    then have "0 \<le> int (length filename) - int (length sfx)"
      "int (length filename) - int (length sfx) + int (length sfx) < int (length (c_str filename))"
      by (simp_all add: c_str_def)
    from strcasecmp_eq_in_bounds [OF this]
    have "\<not> isl (strcasecmp_eq (c_str filename) (int (length filename) - int (length sfx))
        (c_str sfx))"
      by (simp add: c_str_def)
    with Cons len False show ?thesis
      by (auto split: sum.splits bool.splits)
  qed
qed

lemma video_hint_in_bounds: "\<not> isl (video_hint filename error)"
proof -
  have "\<not> isl (video_suffix_loop filename video_suffixes)"
    by (rule video_suffix_loop_in_bounds) (simp add: video_suffixes_def)
  then show ?thesis
    by (auto simp: video_hint_def split: sum.splits bool.splits)
qed

lemma failure_text_in_bounds: "\<not> isl (failure_text cfg env filename error)"
  using video_hint_in_bounds by (simp add: failure_text_def)

lemma video_hint_nonempty: "error \<noteq> [] \<Longrightarrow> video_hint filename error = Inr error"
  by (simp add: video_hint_def)



text \<open>
  Claim C8, as stated, fails in two ways. \<open>Create\<close> has no \<open>try\<close> block: when the
  JPEG backend throws, after the backends before it have returned \<open>false\<close>, the
  exception leaves \<open>Create\<close>. And for the path \<open>/dev/stdin\<close> in a build with video
  support, when nothing loads and \<open>stat\<close> fails, the text left in \<open>*error\<close> is the hint
  about video on standard input, which replaces the filename and the reason of the
  operating system.
\<close>

theorem Create_exception_counterexample:
  "LoadAndScale jpeg_throws OpenSlideSource ''photo.jpg'' box_200 0 1 = Returns False
   \<and> LoadAndScale jpeg_throws QOIImageSource ''photo.jpg'' box_200 0 1 = Returns False
   \<and> LoadAndScale jpeg_throws JPEGSource ''photo.jpg'' box_200 0 1 = Throws
   \<and> Create full_build jpeg_throws ''photo.jpg'' box_200 0 1 True True [] = Throws
   \<and> Create full_build nothing_there ''/dev/stdin'' box_200 0 1 True True []
     = Returns (Inr \<lparr> source = None,
             error_text = ''If this is a video on stdin, use '' @ [CHR 0x27] @ ''-V''
                          @ [CHR 0x27] @ '' to skip image probing'',
             attempted = [OpenSlideSource, QOIImageSource, JPEGSource, SVGImageSource,
                          PDFImageSource, GraphicsMagickSource, STBImageSource, VideoSource] \<rparr>)
   \<and> stat nothing_there ''/dev/stdin'' = StatFailed 2
   \<and> strerror nothing_there 2 = ''No such file or directory''
   \<and> \<not> sublist ''No such file or directory''
         (''If this is a video on stdin, use '' @ [CHR 0x27] @ ''-V''
          @ [CHR 0x27] @ '' to skip image probing'')"
proof -
  have "\<not> sublist ''No such file or directory''
         (''If this is a video on stdin, use '' @ [CHR 0x27] @ ''-V''
          @ [CHR 0x27] @ '' to skip image probing'')"
    by code_simp
  moreover have "Create full_build jpeg_throws ''photo.jpg'' box_200 0 1 True True [] = Throws"
    by (simp add: Create_def candidates_def image_backends_def full_build_def jpeg_throws_def)
  ultimately show ?thesis
    by (simp add: Create_def candidates_def image_backends_def full_build_def nothing_there_def
        jpeg_throws_def failure_text_def stdin_hint_def file_diagnosis_def)
qed

text \<open>
  Claim C8, amended. When every candidate returns \<open>false\<close>, and the filename is neither
  \<open>-\<close> nor, in a build with video support, \<open>/dev/stdin\<close>, \<open>Create\<close> returns no source,
  and the text it leaves is what was in \<open>*error\<close> followed by: the filename and the
  reason of the operating system if \<open>stat\<close> fails; else the filename and
  \<open>is a directory\<close> if the path is one; else the filename and the reason of the operating
  system if read access is denied. A backend that returns \<open>false\<close> never makes \<open>Create\<close>
  throw; an exception that leaves a candidate, after the candidates before it have
  returned \<open>false\<close>, leaves \<open>Create\<close> too.
\<close>

theorem Create_failure_diagnosis:
  "((\<forall>c \<in> set (candidates cfg attempt_image_loading attempt_video_loading).
        LoadAndScale env c filename options frame_offset frame_count = Returns False)
      \<and> filename \<noteq> ''-''
      \<and> \<not> (WITH_TIMG_VIDEO cfg \<and> filename = ''/dev/stdin'')
    \<longrightarrow> (\<exists>r. Create cfg env filename options frame_offset frame_count attempt_image_loading
               attempt_video_loading error = Returns (Inr r)
           \<and> source r = None
           \<and> (case stat env filename of
                StatFailed errno \<Rightarrow> error_text r = error @ filename @ '': '' @ strerror env errno
              | StatOk is_dir \<Rightarrow>
                  if is_dir then error_text r = error @ filename @ '': is a directory''
                  else (case access_R_OK env filename of
                          Some errno \<Rightarrow>
                            error_text r = error @ filename @ '': '' @ strerror env errno
                        | None \<Rightarrow> True))))
   \<and> (candidates cfg attempt_image_loading attempt_video_loading = pre @ d # post
      \<and> (\<forall>c \<in> set pre.
            LoadAndScale env c filename options frame_offset frame_count = Returns False)
      \<and> LoadAndScale env d filename options frame_offset frame_count = Throws
    \<longrightarrow> Create cfg env filename options frame_offset frame_count attempt_image_loading
          attempt_video_loading error = Throws)"
proof (intro conjI impI)
  assume a: "(\<forall>c \<in> set (candidates cfg attempt_image_loading attempt_video_loading).
        LoadAndScale env c filename options frame_offset frame_count = Returns False)
      \<and> filename \<noteq> ''-''
      \<and> \<not> (WITH_TIMG_VIDEO cfg \<and> filename = ''/dev/stdin'')"
  then have none: "\<forall>c \<in> set (candidates cfg attempt_image_loading attempt_video_loading).
        LoadAndScale env c filename options frame_offset frame_count = Returns False"
    and not_dash: "filename \<noteq> ''-''"
    and not_stdin: "\<not> (WITH_TIMG_VIDEO cfg \<and> filename = ''/dev/stdin'')"
    by blast+
  let ?diag = "file_diagnosis env filename error"
  have p: "probe (\<lambda>d. LoadAndScale env d filename options frame_offset frame_count)
      (candidates cfg attempt_image_loading attempt_video_loading) []
    = Returns (None, candidates cfg attempt_image_loading attempt_video_loading)"
    using probe_none [OF none, of "[]"] by simp
  obtain msg where msg: "failure_text cfg env filename error = Inr msg"
    using failure_text_in_bounds [of cfg env filename error]
    by (cases "failure_text cfg env filename error") auto
  have keep: "?diag \<noteq> [] \<Longrightarrow> msg = ?diag"
    using msg not_dash not_stdin
    by (auto simp: failure_text_def stdin_hint_def video_hint_nonempty split: if_splits)
  have "case stat env filename of
          StatFailed errno \<Rightarrow> msg = error @ filename @ '': '' @ strerror env errno
        | StatOk is_dir \<Rightarrow>
            if is_dir then msg = error @ filename @ '': is a directory''
            else (case access_R_OK env filename of
                    Some errno \<Rightarrow> msg = error @ filename @ '': '' @ strerror env errno
                  | None \<Rightarrow> True)"
    using keep not_dash
    by (auto simp: file_diagnosis_def split: stat_result.splits option.splits)
  with p msg show "\<exists>r. Create cfg env filename options frame_offset frame_count
               attempt_image_loading attempt_video_loading error = Returns (Inr r)
           \<and> source r = None
           \<and> (case stat env filename of
                StatFailed errno \<Rightarrow> error_text r = error @ filename @ '': '' @ strerror env errno
              | StatOk is_dir \<Rightarrow>
                  if is_dir then error_text r = error @ filename @ '': is a directory''
                  else (case access_R_OK env filename of
                          Some errno \<Rightarrow>
                            error_text r = error @ filename @ '': '' @ strerror env errno
                        | None \<Rightarrow> True))"
    by (simp add: Create_def split: stat_result.splits option.splits)
next
  assume "candidates cfg attempt_image_loading attempt_video_loading = pre @ d # post
      \<and> (\<forall>c \<in> set pre.
            LoadAndScale env c filename options frame_offset frame_count = Returns False)
      \<and> LoadAndScale env d filename options frame_offset frame_count = Throws"
  then have split: "candidates cfg attempt_image_loading attempt_video_loading = pre @ d # post"
    and pre: "\<forall>c \<in> set pre.
            LoadAndScale env c filename options frame_offset frame_count = Returns False"
    and d: "LoadAndScale env d filename options frame_offset frame_count = Throws"
    by blast+
  show "Create cfg env filename options frame_offset frame_count attempt_image_loading
          attempt_video_loading error = Throws"
    using probe_throws [OF pre d, of post "[]"] split by (simp add: Create_def)
qed

theorem Create_failure_diagnosis_witness:
  "candidates full_build True True = image_backend_order @ [VideoSource]
   \<and> LoadAndScale nothing_there OpenSlideSource ''missing.png'' box_200 0 1 = Returns False
   \<and> LoadAndScale nothing_there QOIImageSource ''missing.png'' box_200 0 1 = Returns False
   \<and> LoadAndScale nothing_there JPEGSource ''missing.png'' box_200 0 1 = Returns False
   \<and> LoadAndScale nothing_there SVGImageSource ''missing.png'' box_200 0 1 = Returns False
   \<and> LoadAndScale nothing_there PDFImageSource ''missing.png'' box_200 0 1 = Returns False
   \<and> LoadAndScale nothing_there GraphicsMagickSource ''missing.png'' box_200 0 1
       = Returns False
   \<and> LoadAndScale nothing_there STBImageSource ''missing.png'' box_200 0 1 = Returns False
   \<and> LoadAndScale nothing_there VideoSource ''missing.png'' box_200 0 1 = Returns False
   \<and> ''missing.png'' \<noteq> ''-''
   \<and> ''missing.png'' \<noteq> ''/dev/stdin''
   \<and> stat nothing_there ''missing.png'' = StatFailed 2
   \<and> (\<exists>r. Create full_build nothing_there ''missing.png'' box_200 0 1 True True []
            = Returns (Inr r)
          \<and> source r = None
          \<and> error_text r = ''missing.png: No such file or directory'')
   \<and> candidates full_build True True
       = [OpenSlideSource, QOIImageSource] @ JPEGSource
         # [SVGImageSource, PDFImageSource, GraphicsMagickSource, STBImageSource, VideoSource]
   \<and> LoadAndScale jpeg_throws OpenSlideSource ''photo.jpg'' box_200 0 1 = Returns False
   \<and> LoadAndScale jpeg_throws QOIImageSource ''photo.jpg'' box_200 0 1 = Returns False
   \<and> LoadAndScale jpeg_throws JPEGSource ''photo.jpg'' box_200 0 1 = Throws
   \<and> Create full_build jpeg_throws ''photo.jpg'' box_200 0 1 True True [] = Throws"
  using Create_failure_diagnosis [of full_build True True nothing_there "''missing.png''"
      box_200 0 1 "[]" "[]" OpenSlideSource
      "[QOIImageSource, JPEGSource, SVGImageSource, PDFImageSource, GraphicsMagickSource,
        STBImageSource, VideoSource]"]
    Create_failure_diagnosis [of full_build True True jpeg_throws "''photo.jpg''"
      box_200 0 1 "[]" "[OpenSlideSource, QOIImageSource]" JPEGSource
      "[SVGImageSource, PDFImageSource, GraphicsMagickSource, STBImageSource, VideoSource]"]
  by (simp add: nothing_there_def jpeg_throws_def candidates_def image_backends_filter
      full_build_def image_backend_order_def)

end
